theory Spec2Isabelle
  imports
    Complex_Main
    "HOL-Library.Char_ord"
    "HOL-Library.List_Lexorder"
    "HOL-Library.Product_Lexorder"
begin

section \<open>Data model (detector/types.py)\<close>

text \<open>
  The frozen dataclass \<^verbatim>\<open>Detection\<close>. Python floats are idealised as reals: no float
  arithmetic is performed on these fields except the truncation \<^verbatim>\<open>int(det.x1)\<close>.
\<close>

record detection =
  class_id :: int
  class_name :: string
  confidence :: real
  x1 :: real
  y1 :: real
  x2 :: real
  y2 :: real

type_synonym color = "int \<times> int \<times> int"

text \<open>Python's \<^verbatim>\<open>int(x)\<close> on a float: truncation toward zero.\<close>

definition py_int :: "real \<Rightarrow> int" where
  "py_int x = (if x < 0 then \<lceil>x\<rceil> else \<lfloor>x\<rfloor>)"

text \<open>Python's \<^verbatim>\<open>str(n)\<close> on an int, as used by the f-string of the legend.\<close>

fun str_nat :: "nat \<Rightarrow> string" where
  "str_nat n =
     (if n < 10 then [''0123456789'' ! n]
      else str_nat (n div 10) @ [''0123456789'' ! (n mod 10)])"

declare str_nat.simps [simp del]

definition str_int :: "int \<Rightarrow> string" where
  "str_int i = (if i < 0 then CHR ''-'' # str_nat (nat (- i)) else str_nat (nat i))"

section \<open>Dictionaries with insertion order\<close>

text \<open>
  A Python dict keeps its keys in insertion order: an association list without
  duplicate keys. \<open>dict_set\<close> is \<^verbatim>\<open>d[k] = v\<close>, \<open>dict_get\<close> is \<^verbatim>\<open>d.get(k, default)\<close>,
  \<open>setdefault\<close> is \<^verbatim>\<open>d.setdefault(k, v)\<close> and \<open>dict_keys\<close> is \<^verbatim>\<open>d.keys()\<close>.
\<close>

type_synonym ('k, 'v) dict = "('k \<times> 'v) list"

fun dict_set :: "('k, 'v) dict \<Rightarrow> 'k \<Rightarrow> 'v \<Rightarrow> ('k, 'v) dict" where
  "dict_set [] k v = [(k, v)]"
| "dict_set ((k', v') # d) k v =
     (if k' = k then (k', v) # d else (k', v') # dict_set d k v)"

definition dict_get :: "('k, 'v) dict \<Rightarrow> 'k \<Rightarrow> 'v \<Rightarrow> 'v" where
  "dict_get d k dflt = (case map_of d k of None \<Rightarrow> dflt | Some v \<Rightarrow> v)"

definition setdefault :: "('k, 'v) dict \<Rightarrow> 'k \<Rightarrow> 'v \<Rightarrow> ('k, 'v) dict" where
  "setdefault d k v = (case map_of d k of None \<Rightarrow> d @ [(k, v)] | Some _ \<Rightarrow> d)"

definition dict_keys :: "('k, 'v) dict \<Rightarrow> 'k list" where
  "dict_keys d = map fst d"

section \<open>The image library and the array store\<close>

text \<open>
  The drawing primitives of OpenCV and the two formatting and hashing library calls of
  detector/visualize.py are parameters: \<open>'img\<close> is the content of an ndarray, and each
  primitive maps the content before the call to the content after it.
  \<open>format_2f\<close> is the format spec \<^verbatim>\<open>:.2f\<close>; \<open>md5_hex8\<close> is
  \<^verbatim>\<open>int(hashlib.md5(name.encode('utf-8')).hexdigest()[:8], 16)\<close>.
\<close>

record 'img lib =
  shape :: "'img \<Rightarrow> int \<times> int"
  rectangle :: "'img \<Rightarrow> int \<times> int \<Rightarrow> int \<times> int \<Rightarrow> color \<Rightarrow> int \<Rightarrow> 'img"
  putText :: "'img \<Rightarrow> string \<Rightarrow> int \<times> int \<Rightarrow> real \<Rightarrow> color \<Rightarrow> int \<Rightarrow> 'img"
  getTextSize :: "string \<Rightarrow> real \<Rightarrow> int \<Rightarrow> (int \<times> int) \<times> int"
  addWeighted :: "'img \<Rightarrow> real \<Rightarrow> 'img \<Rightarrow> real \<Rightarrow> real \<Rightarrow> 'img"
  format_2f :: "real \<Rightarrow> string"
  md5_hex8 :: "string \<Rightarrow> int"

text \<open>
  Arrays are mutable objects shared by reference, so they live in a store: a list of
  array contents, an array reference being an index into it. \<open>ndarray_copy\<close> is
  \<^verbatim>\<open>a.copy()\<close> (a fresh array with the same content); \<open>in_place\<close> is a library call that
  draws into the array it is given.
\<close>

type_synonym 'img store = "'img list"

definition ndarray_copy :: "'img store \<Rightarrow> nat \<Rightarrow> 'img store \<times> nat" where
  "ndarray_copy st a = (st @ [st ! a], length st)"

definition in_place :: "'img store \<Rightarrow> nat \<Rightarrow> ('img \<Rightarrow> 'img) \<Rightarrow> 'img store" where
  "in_place st a f = st[a := f (st ! a)]"

section \<open>Annotation (detector/visualize.py)\<close>

text \<open>\<^verbatim>\<open>colorsys.hsv_to_rgb\<close> of the standard library, over the reals.\<close>

definition hsv_to_rgb :: "real \<Rightarrow> real \<Rightarrow> real \<Rightarrow> real \<times> real \<times> real" where
  "hsv_to_rgb h s v =
     (if s = 0 then (v, v, v)
      else
        let i = py_int (h * 6);
            f = h * 6 - real_of_int i;
            p = v * (1 - s);
            q = v * (1 - s * f);
            t = v * (1 - s * (1 - f));
            i = i mod 6
        in if i = 0 then (v, t, p)
           else if i = 1 then (q, v, p)
           else if i = 2 then (p, v, t)
           else if i = 3 then (p, q, v)
           else if i = 4 then (t, p, v)
           else (v, p, q))"

text \<open>\<^verbatim>\<open>_color_for_class\<close>: a deterministic BGR colour for a class id.\<close>

definition color_for_class :: "int \<Rightarrow> color" where
  "color_for_class cid =
     (let h = frac (real_of_int cid * 0.61803398875);
          (r, g, b) = hsv_to_rgb h 0.85 0.95
      in (py_int (b * 255), py_int (g * 255), py_int (r * 255)))"

text \<open>
  One iteration of the loop of \<^verbatim>\<open>_draw_legend\<close>: the swatch and the text of one class
  name at height \<open>y\<close>. \<open>colors\<close> is \<open>None\<close> for Python's \<^verbatim>\<open>None\<close>.
\<close>

definition legend_row ::
  "'img lib \<Rightarrow> nat \<Rightarrow> (string, int) dict \<Rightarrow> (string, color) dict option \<Rightarrow> int \<Rightarrow>
   string \<Rightarrow> 'img store \<times> int \<Rightarrow> 'img store \<times> int" where
  "legend_row cv out counts colors lx1 name sy =
     (let st = fst sy; y = snd sy; pad = 10; line_h = 22;
          color =
            (case colors of
               None \<Rightarrow> color_for_class (md5_hex8 cv name mod 1000)
             | Some cs \<Rightarrow>
                 (if cs \<noteq> [] \<and> name \<in> set (dict_keys cs)
                  then dict_get cs name (0, 0, 0)
                  else color_for_class (md5_hex8 cv name mod 1000)));
          st1 = in_place st out
                  (\<lambda>im. rectangle cv im (lx1 + pad, y - 12) (lx1 + pad + 14, y + 2) color (- 1));
          txt = name @ '': '' @ str_int (dict_get counts name 0);
          st2 = in_place st1 out
                  (\<lambda>im. putText cv im txt (lx1 + pad + 22, y) 0.55 (15, 23, 42) 2)
      in (st2, y + line_h))"

text \<open>\<^verbatim>\<open>_draw_legend\<close>: draws into the array \<open>out\<close>; returns nothing.\<close>

definition draw_legend ::
  "'img lib \<Rightarrow> 'img store \<Rightarrow> nat \<Rightarrow> string list \<Rightarrow> (string, int) dict \<Rightarrow>
   (string, color) dict option \<Rightarrow> 'img store" where
  "draw_legend cv st out class_names counts colors =
     (if class_names = [] then st
      else
        let pad = 10; line_h = 22; box_w = 220;
            box_h = pad * 2 + line_h * int (length class_names);
            h = fst (shape cv (st ! out)); w = snd (shape cv (st ! out));
            lx2 = w - 10; ly1 = 10;
            lx1 = max 10 (lx2 - box_w);
            ly2 = min (h - 10) (ly1 + box_h);
            st1 = fst (ndarray_copy st out); overlay = snd (ndarray_copy st out);
            st2 = in_place st1 overlay
                    (\<lambda>im. rectangle cv im (lx1, ly1) (lx2, ly2) (255, 255, 255) (- 1));
            st3 = st2[out := addWeighted cv (st2 ! overlay) 0.75 (st2 ! out) 0.25 0];
            st4 = in_place st3 out
                    (\<lambda>im. rectangle cv im (lx1, ly1) (lx2, ly2) (203, 213, 225) 1)
        in fst (fold (legend_row cv out counts colors lx1) class_names (st4, ly1 + pad + 16)))"

text \<open>
  One iteration of the loop of \<^verbatim>\<open>draw_detections_bgr\<close>: the box and the label of one
  detection, and the bookkeeping of the per-class counts and colours.
\<close>

definition draw_box ::
  "'img lib \<Rightarrow> nat \<Rightarrow> detection \<Rightarrow>
   'img store \<times> (string, int) dict \<times> (string, color) dict \<Rightarrow>
   'img store \<times> (string, int) dict \<times> (string, color) dict" where
  "draw_box cv out det acc =
     (let st = fst acc; class_counts = fst (snd acc); class_colors = snd (snd acc);
          bx1 = py_int (x1 det); by1 = py_int (y1 det);
          bx2 = py_int (x2 det); by2 = py_int (y2 det);
          color = color_for_class (class_id det);
          class_colors' = setdefault class_colors (class_name det) color;
          class_counts' = dict_set class_counts (class_name det)
                            (dict_get class_counts (class_name det) 0 + 1);
          st1 = in_place st out (\<lambda>im. rectangle cv im (bx1, by1) (bx2, by2) color 2);
          label = class_name det @ '' '' @ format_2f cv (confidence det);
          tw = fst (fst (getTextSize cv label 0.6 2));
          th = snd (fst (getTextSize cv label 0.6 2));
          baseline = snd (getTextSize cv label 0.6 2);
          st2 = in_place st1 out
                  (\<lambda>im. rectangle cv im (bx1, max 0 (by1 - th - baseline - 6))
                           (bx1 + tw + 6, by1) color (- 1));
          st3 = in_place st2 out
                  (\<lambda>im. putText cv im label (bx1 + 3, by1 - 4) 0.6 (0, 0, 0) 2)
      in (st3, class_counts', class_colors'))"

text \<open>
  The names handed to the legend: \<^verbatim>\<open>sorted(class_counts.keys(), key=lambda k:
  (-class_counts[k], k))[:12]\<close>. Every key is in the dict, so \<^verbatim>\<open>class_counts[k]\<close>
  never raises and is \<open>dict_get\<close>.
\<close>

definition legend_names :: "(string, int) dict \<Rightarrow> string list" where
  "legend_names class_counts =
     take 12 (sort_key (\<lambda>k. (- dict_get class_counts k 0, k)) (dict_keys class_counts))"

text \<open>
  \<^verbatim>\<open>draw_detections_bgr\<close>: takes the store and the reference of the input array, returns
  the store after the call and the reference of the returned array.
\<close>

definition draw_detections_bgr ::
  "'img lib \<Rightarrow> 'img store \<Rightarrow> nat \<Rightarrow> detection list \<Rightarrow> 'img store \<times> nat" where
  "draw_detections_bgr cv st image_bgr detections =
     (let st0 = fst (ndarray_copy st image_bgr); out = snd (ndarray_copy st image_bgr);
          acc = fold (draw_box cv out) detections (st0, [], []);
          st1 = fst acc; class_counts = fst (snd acc); class_colors = snd (snd acc);
          st2 = (if class_counts \<noteq> []
                 then draw_legend cv st1 out (legend_names class_counts)
                        class_counts (Some class_colors)
                 else st1)
      in (st2, out))"

section \<open>The video pipeline (detector/video.py)\<close>

subsection \<open>Results\<close>

text \<open>
  \<^verbatim>\<open>dataclasses.asdict\<close> on a \<^verbatim>\<open>Detection\<close>: the dict of its fields, in field order.
\<close>

datatype pyval = PyInt int | PyStr string | PyFloat real

definition asdict :: "detection \<Rightarrow> (string, pyval) dict" where
  "asdict d =
     [(''class_id'', PyInt (class_id d)),
      (''class_name'', PyStr (class_name d)),
      (''confidence'', PyFloat (confidence d)),
      (''x1'', PyFloat (x1 d)),
      (''y1'', PyFloat (y1 d)),
      (''x2'', PyFloat (x2 d)),
      (''y2'', PyFloat (y2 d))]"

text \<open>The dict appended to \<^verbatim>\<open>per_frame\<close> for a sampled frame, and the \<^verbatim>\<open>meta\<close> dict.\<close>

record frame_record =
  frame_index :: int
  timestamp_s :: real
  detections :: "(string, pyval) dict list"

record meta =
  fps :: real
  width :: int
  height :: int
  total_frames :: int
  frames_read :: int
  frame_step :: int
  sampled_frames :: int

type_synonym pipeline_result = "meta \<times> detection list \<times> frame_record list"

text \<open>
  The three \<^verbatim>\<open>ValueError\<close>s raised by \<^verbatim>\<open>process_video\<close>, and an exception escaping from
  \<^verbatim>\<open>detector.predict_image\<close> (it raises \<^verbatim>\<open>RuntimeError\<close> when the model cannot be loaded).
\<close>

datatype error =
    Failed_to_open_video
  | Failed_to_read_frames
  | Failed_to_open_video_writer
  | Detector_error

subsection \<open>The outside world\<close>

text \<open>
  What \<^verbatim>\<open>cv2.VideoCapture(str(input_path))\<close> gives: whether it opened, the four
  properties read with \<^verbatim>\<open>cap.get\<close> (floats, 0 when unknown), the frames that successive
  \<^verbatim>\<open>cap.read()\<close> calls decode before the first failing read, and whether
  \<^verbatim>\<open>cap.set(CAP_PROP_POS_FRAMES, 0)\<close> rewinds the stream.
\<close>

record 'img video =
  is_opened :: bool
  prop_fps :: real
  prop_frame_width :: real
  prop_frame_height :: real
  prop_frame_count :: real
  frames :: "'img list"
  seekable :: bool

text \<open>
  The outcome of the transcoding attempt (the import of \<^verbatim>\<open>imageio_ffmpeg\<close>, the lookup of
  the binary and \<^verbatim>\<open>subprocess.run(cmd, check=True)\<close>): either ffmpeg exits with 0 and has
  written the output file, or an exception is raised; in that case ffmpeg may have left a
  file at the output path (\<open>Some\<close> of its content) or never created one (\<open>None\<close>).
\<close>

datatype transcode = Transcoded string | Transcode_failed "string option"

text \<open>
  The collaborators of one invocation: the detector, \<^verbatim>\<open>Path.with_suffix\<close>, whether the
  \<^verbatim>\<open>cv2.VideoWriter\<close> opens, the bytes the released writer leaves in its file for the
  frames written, the transcoder as a function of the content of the intermediate file,
  and whether \<^verbatim>\<open>Path.replace\<close> and \<^verbatim>\<open>Path.unlink\<close> raise.
  \<^verbatim>\<open>output_path.parent.mkdir(parents=True, exist_ok=True)\<close> is taken to succeed.
\<close>

record 'img env =
  predict_image :: "'img \<Rightarrow> real \<Rightarrow> detection list option"
  with_suffix :: "string \<Rightarrow> string \<Rightarrow> string"
  writer_is_opened :: "string \<Rightarrow> real \<Rightarrow> int \<times> int \<Rightarrow> bool"
  mp4v :: "'img list \<Rightarrow> string"
  ffmpeg :: "string \<Rightarrow> transcode"
  replace_raises :: bool
  unlink_raises :: bool

text \<open>
  The state outside the invocation: the files (path to content) and whether the handle
  of the source and the handle of the sink are held open.
\<close>

record world =
  files :: "string \<Rightarrow> string option"
  cap_open :: bool
  writer_open :: bool

subsection \<open>The streaming loop\<close>

text \<open>
  The local variables of the loop, and \<open>written\<close>: the frames handed to
  \<^verbatim>\<open>writer.write\<close> so far.
\<close>

record 'img loop =
  per_frame :: "frame_record list"
  flat :: "detection list"
  frame_idx :: int
  sampled :: int
  written :: "'img list"

text \<open>
  \<^verbatim>\<open>frame = draw_detections_bgr(frame, dets)\<close> on a freshly decoded frame: the store
  holds that frame only, and the value of the returned array is read back.
\<close>

definition annotate :: "'img lib \<Rightarrow> 'img \<Rightarrow> detection list \<Rightarrow> 'img" where
  "annotate cv frame dets =
     (let r = draw_detections_bgr cv [frame] 0 dets in fst r ! snd r)"

text \<open>
  The body of the loop for one decoded frame, from the sampling test to
  \<^verbatim>\<open>frame_idx += 1\<close>.
\<close>

definition process_frame ::
  "'img lib \<Rightarrow> 'img env \<Rightarrow> real \<Rightarrow> real \<Rightarrow> int \<Rightarrow> 'img \<Rightarrow> 'img loop \<Rightarrow> error + 'img loop" where
  "process_frame cv env conf fps_v step frame s =
     (if frame_idx s mod step = 0 then
        (case predict_image env frame conf of
           None \<Rightarrow> Inl Detector_error
         | Some dets \<Rightarrow>
             Inr (s\<lparr>flat := flat s @ dets,
                    sampled := sampled s + 1,
                    per_frame := per_frame s @
                      [\<lparr>frame_index = frame_idx s,
                        timestamp_s =
                          (if fps_v \<noteq> 0 then real_of_int (frame_idx s) / fps_v else 0),
                        detections = map asdict dets\<rparr>],
                    written := written s @ [annotate cv frame dets],
                    frame_idx := frame_idx s + 1\<rparr>))
      else Inr (s\<lparr>written := written s @ [frame], frame_idx := frame_idx s + 1\<rparr>))"

text \<open>
  \<^verbatim>\<open>while True\<close>: the list is what the source still decodes; the empty list is the
  failing \<^verbatim>\<open>cap.read()\<close>.
\<close>

fun read_loop ::
  "'img lib \<Rightarrow> 'img env \<Rightarrow> real \<Rightarrow> real \<Rightarrow> int \<Rightarrow> int \<Rightarrow> 'img list \<Rightarrow> 'img loop \<Rightarrow>
   error + 'img loop" where
  "read_loop cv env conf fps_v step max_frames [] s = Inr s"
| "read_loop cv env conf fps_v step max_frames (frame # rest) s =
     (case process_frame cv env conf fps_v step frame s of
        Inl e \<Rightarrow> Inl e
      | Inr s' \<Rightarrow>
          if max_frames \<noteq> 0 \<and> frame_idx s' \<ge> max_frames then Inr s'
          else read_loop cv env conf fps_v step max_frames rest s')"

subsection \<open>Opening, transcoding, the whole pipeline\<close>

text \<open>
  The dimension probe: when the container reports no width or height, one frame is read
  for its shape and the stream is rewound if it can be. Returns width, height and the
  frames the loop will decode.
\<close>

definition probe ::
  "'img lib \<Rightarrow> 'img video \<Rightarrow> error + (int \<times> int \<times> 'img list)" where
  "probe cv video =
     (let width_v = py_int (prop_frame_width video);
          height_v = py_int (prop_frame_height video)
      in if width_v \<le> 0 \<or> height_v \<le> 0 then
           (case frames video of
              [] \<Rightarrow> Inl Failed_to_read_frames
            | frame # rest \<Rightarrow>
                Inr (snd (shape cv frame), fst (shape cv frame),
                     if seekable video then frames video else rest))
         else Inr (width_v, height_v, frames video))"

text \<open>The \<^verbatim>\<open>try\<close> / \<^verbatim>\<open>except\<close> / \<^verbatim>\<open>finally\<close> block after the handles are released.\<close>

definition transcode_step ::
  "'img env \<Rightarrow> string \<Rightarrow> string \<Rightarrow> (string \<Rightarrow> string option) \<Rightarrow> string \<Rightarrow> string option" where
  "transcode_step env raw_path output_path fs =
     (let outcome = (case fs raw_path of
                       None \<Rightarrow> Transcode_failed None
                     | Some raw \<Rightarrow> ffmpeg env raw);
          fs1 = (case outcome of
                   Transcoded out \<Rightarrow> fs(output_path \<mapsto> out)
                 | Transcode_failed None \<Rightarrow> fs
                 | Transcode_failed (Some partial) \<Rightarrow> fs(output_path \<mapsto> partial));
          fs2 = (case outcome of
                   Transcoded out \<Rightarrow> fs1
                 | Transcode_failed left \<Rightarrow>
                     (if fs1 raw_path \<noteq> None \<and> fs1 output_path = None then
                        (if replace_raises env then fs1
                         else fs1(output_path := fs1 raw_path, raw_path := None))
                      else fs1))
      in if fs2 raw_path \<noteq> None \<and> raw_path \<noteq> output_path then
           (if unlink_raises env then fs2 else fs2(raw_path := None))
         else fs2)"

definition process_video ::
  "'img lib \<Rightarrow> 'img env \<Rightarrow> 'img video \<Rightarrow> string \<Rightarrow> real \<Rightarrow> int \<Rightarrow> int \<Rightarrow> world \<Rightarrow>
   (error + pipeline_result) \<times> world" where
  "process_video cv env video output_path conf frame_step_arg max_frames w =
     (let step = max 1 frame_step_arg in
      if \<not> is_opened video then (Inl Failed_to_open_video, w)
      else
        let w1 = w\<lparr>cap_open := True\<rparr>;
            fps_v = (if prop_fps video = 0 then 25 else prop_fps video);
            total = py_int (prop_frame_count video)
        in case probe cv video of
             Inl e \<Rightarrow> (Inl e, w1)
           | Inr (width_v, height_v, stream) \<Rightarrow>
               let raw_path = with_suffix env output_path ''.raw.mp4'' in
               if \<not> writer_is_opened env raw_path fps_v (width_v, height_v)
               then (Inl Failed_to_open_video_writer, w1)
               else
                 let w2 = w1\<lparr>writer_open := True,
                              files := (files w1)(raw_path \<mapsto> mp4v env [])\<rparr>
                 in (case read_loop cv env conf fps_v step max_frames stream
                           \<lparr>per_frame = [], flat = [], frame_idx = 0, sampled = 0,
                            written = []\<rparr> of
                      Inl e \<Rightarrow> (Inl e, w2)
                    | Inr s \<Rightarrow>
                        let w3 = w2\<lparr>cap_open := False, writer_open := False,
                                     files := (files w2)(raw_path \<mapsto> mp4v env (written s))\<rparr>;
                            w4 = w3\<lparr>files := transcode_step env raw_path output_path (files w3)\<rparr>
                        in (Inr (\<lparr>fps = fps_v, width = width_v, height = height_v,
                                   total_frames = total, frames_read = frame_idx s,
                                   frame_step = step, sampled_frames = sampled s\<rparr>,
                                 flat s, per_frame s),
                            w4)))"

section \<open>Notions used in the statements\<close>

text \<open>
  The number of detections of a class name in a frame, the colour of the first detection
  of that name (the colour \<^verbatim>\<open>class_colors.setdefault\<close> keeps), and the order of the
  legend: larger count first, equal counts by ascending name.
\<close>

definition class_count :: "detection list \<Rightarrow> string \<Rightarrow> int" where
  "class_count dets n = int (length (filter (\<lambda>d. class_name d = n) dets))"

definition class_color :: "detection list \<Rightarrow> string \<Rightarrow> color" where
  "class_color dets n =
     (case find (\<lambda>d. class_name d = n) dets of
        None \<Rightarrow> (0, 0, 0)
      | Some d \<Rightarrow> color_for_class (class_id d))"

definition legend_before :: "detection list \<Rightarrow> string \<Rightarrow> string \<Rightarrow> bool" where
  "legend_before dets n m \<longleftrightarrow>
     class_count dets m < class_count dets n \<or>
     (class_count dets m = class_count dets n \<and> n < m)"

text \<open>
  The annotated image as a value, in the words of the specification: \<open>box_image\<close> is
  the box, the label background and the label of one detection drawn on an image;
  \<open>legend_panel\<close> is the blended white panel and its border for a legend of \<open>k\<close> rows;
  \<open>legend_entry\<close> is one legend row at height \<open>y\<close>, the swatch in the colour of the
  class and the text "name: count"; \<open>top_classes\<close> are the class names of the frame by
  descending count, equal counts by ascending name, cut after 12.
\<close>

definition box_image :: "'img lib \<Rightarrow> detection \<Rightarrow> 'img \<Rightarrow> 'img" where
  "box_image cv det img =
     (let bx1 = py_int (x1 det); by1 = py_int (y1 det);
          bx2 = py_int (x2 det); by2 = py_int (y2 det);
          color = color_for_class (class_id det);
          label = class_name det @ '' '' @ format_2f cv (confidence det);
          tw = fst (fst (getTextSize cv label 0.6 2));
          th = snd (fst (getTextSize cv label 0.6 2));
          baseline = snd (getTextSize cv label 0.6 2)
      in putText cv
           (rectangle cv
              (rectangle cv img (bx1, by1) (bx2, by2) color 2)
              (bx1, max 0 (by1 - th - baseline - 6)) (bx1 + tw + 6, by1) color (- 1))
           label (bx1 + 3, by1 - 4) 0.6 (0, 0, 0) 2)"

definition legend_panel :: "'img lib \<Rightarrow> nat \<Rightarrow> 'img \<Rightarrow> 'img" where
  "legend_panel cv k img =
     (let h = fst (shape cv img); w = snd (shape cv img);
          lx2 = w - 10;
          lx1 = max 10 (lx2 - 220);
          ly2 = min (h - 10) (10 + (20 + 22 * int k))
      in rectangle cv
           (addWeighted cv
              (rectangle cv img (lx1, 10) (lx2, ly2) (255, 255, 255) (- 1)) 0.75 img 0.25 0)
           (lx1, 10) (lx2, ly2) (203, 213, 225) 1)"

definition legend_entry ::
  "'img lib \<Rightarrow> detection list \<Rightarrow> int \<Rightarrow> string \<Rightarrow> 'img \<times> int \<Rightarrow> 'img \<times> int" where
  "legend_entry cv dets lx n iy =
     (putText cv
        (rectangle cv (fst iy) (lx + 10, snd iy - 12) (lx + 10 + 14, snd iy + 2)
           (class_color dets n) (- 1))
        (n @ '': '' @ str_int (class_count dets n))
        (lx + 10 + 22, snd iy) 0.55 (15, 23, 42) 2,
      snd iy + 22)"

definition top_classes :: "detection list \<Rightarrow> string list" where
  "top_classes dets =
     take 12 (sort_key (\<lambda>n. (- class_count dets n, n)) (remdups (map class_name dets)))"

text \<open>
  The frames the streaming loop decodes: all frames of the source, or all but the first
  when the dimension probe consumed a frame of a source that cannot be rewound.
\<close>

definition loop_input :: "'img lib \<Rightarrow> 'img video \<Rightarrow> 'img list" where
  "loop_input cv video =
     (case probe cv video of Inl e \<Rightarrow> [] | Inr r \<Rightarrow> snd (snd r))"

text \<open>
  What holds of the local variables of the loop before and after every iteration, for
  the stride \<open>step\<close>.
\<close>

definition loop_inv :: "int \<Rightarrow> 'img loop \<Rightarrow> bool" where
  "loop_inv step s \<longleftrightarrow>
     0 \<le> frame_idx s \<and>
     sampled s = int (length (per_frame s)) \<and>
     map asdict (flat s) = concat (map detections (per_frame s)) \<and>
     map frame_index (per_frame s) = filter (\<lambda>i. i mod step = 0) [0..frame_idx s - 1] \<and>
     int (length (written s)) = frame_idx s"

text \<open>
  A frame record \<open>r\<close> is the record of a sampled frame of the list \<open>all\<close>: its index is
  in range and its detections are the detector's output on that frame, in the
  detector's order.
\<close>

definition record_of ::
  "'img env \<Rightarrow> real \<Rightarrow> 'img list \<Rightarrow> frame_record \<Rightarrow> bool" where
  "record_of env conf all r \<longleftrightarrow>
     0 \<le> frame_index r \<and> nat (frame_index r) < length all \<and>
     predict_image env (all ! nat (frame_index r)) conf \<noteq> None \<and>
     detections r = map asdict (the (predict_image env (all ! nat (frame_index r)) conf))"

section \<open>Concrete inputs\<close>

text \<open>
  A library instance on which the model can be evaluated: an image is the log of what
  has been drawn on it. Two detections.
\<close>

definition log_lib :: "string list lib" where
  "log_lib =
     \<lparr>shape = (\<lambda>im. (480, 640)),
      rectangle = (\<lambda>im p q c t. im @ [''rectangle'']),
      putText = (\<lambda>im txt p sc c t. im @ [txt]),
      getTextSize = (\<lambda>txt sc t. ((10 * int (length txt), 12), 4)),
      addWeighted = (\<lambda>a wa b wb g. b @ [''overlay'']),
      format_2f = (\<lambda>r. ''0.90''),
      md5_hex8 = (\<lambda>name. 0)\<rparr>"

definition person :: detection where
  "person = \<lparr>class_id = 0, class_name = ''person'', confidence = 0.9,
              x1 = 10, y1 = 20, x2 = 110, y2 = 220\<rparr>"

definition car :: detection where
  "car = \<lparr>class_id = 2, class_name = ''car'', confidence = 0.9,
           x1 = 200, y1 = 50, x2 = 400, y2 = 150\<rparr>"

text \<open>
  A three-frame source, a source without frames, a source without frames that does not
  report its dimensions, a source of thirteen equal frames, and the collaborators: a
  detector that finds a person and a car in the frame \<open>f0\<close> and nothing elsewhere, a
  writer that opens, and a transcoder that is absent (the attempt raises before ffmpeg
  runs). \<open>env_partial\<close> is the same with a transcoder that fails after creating an
  empty output file; \<open>w0\<close> is a world without files and without open handles.
\<close>

definition video3 :: "string list video" where
  "video3 =
     \<lparr>is_opened = True, prop_fps = 25, prop_frame_width = 640, prop_frame_height = 480,
      prop_frame_count = 3, frames = [[''f0''], [''f1''], [''f2'']], seekable = True\<rparr>"

definition video_empty :: "string list video" where
  "video_empty =
     \<lparr>is_opened = True, prop_fps = 25, prop_frame_width = 640, prop_frame_height = 480,
      prop_frame_count = 0, frames = [], seekable = True\<rparr>"

definition video_unprobed :: "string list video" where
  "video_unprobed =
     \<lparr>is_opened = True, prop_fps = 0, prop_frame_width = 0, prop_frame_height = 0,
      prop_frame_count = 0, frames = [], seekable = True\<rparr>"

definition video13 :: "string list video" where
  "video13 =
     \<lparr>is_opened = True, prop_fps = 25, prop_frame_width = 640, prop_frame_height = 480,
      prop_frame_count = 13, frames = replicate 13 [''f''], seekable = True\<rparr>"

definition env0 :: "string list env" where
  "env0 =
     \<lparr>predict_image = (\<lambda>frame conf. Some (if frame = [''f0''] then [person, car] else [])),
      with_suffix = (\<lambda>p suffix. takeWhile (\<lambda>c. c \<noteq> CHR ''.'') p @ suffix),
      writer_is_opened = (\<lambda>p f wh. True),
      mp4v = (\<lambda>fs. ''mp4v'' @ concat (concat fs)),
      ffmpeg = (\<lambda>raw. Transcode_failed None),
      replace_raises = False,
      unlink_raises = False\<rparr>"

definition env_partial :: "string list env" where
  "env_partial = env0\<lparr>ffmpeg := (\<lambda>raw. Transcode_failed (Some []))\<rparr>"

definition w0 :: world where
  "w0 = \<lparr>files = (\<lambda>p. None), cap_open = False, writer_open = False\<rparr>"

section \<open>Properties of the annotator\<close>

subsection \<open>The store outside the returned array\<close>


lemma length_in_place [simp]: "length (in_place st a f) = length st"
  by (simp add: in_place_def)

lemma nth_in_place_other [simp]: "b \<noteq> a \<Longrightarrow> in_place st a f ! b = st ! b"
  by (simp add: in_place_def)

lemma take_in_place [simp]: "n \<le> a \<Longrightarrow> take n (in_place st a f) = take n st"
  by (simp add: in_place_def)

lemma legend_row_length [simp]:
  "length (fst (legend_row cv out counts colors lx1 name sy)) = length (fst sy)"
  by (simp add: legend_row_def Let_def)

lemma legend_row_take [simp]:
  "n \<le> out \<Longrightarrow> take n (fst (legend_row cv out counts colors lx1 name sy)) = take n (fst sy)"
  by (simp add: legend_row_def Let_def)

lemma fold_legend_row_take:
  "n \<le> out \<Longrightarrow>
   take n (fst (fold (legend_row cv out counts colors lx1) names sy)) = take n (fst sy)"
  by (induction names arbitrary: sy) simp_all

lemma draw_legend_take:
  "n \<le> out \<Longrightarrow> n \<le> length st \<Longrightarrow>
   take n (draw_legend cv st out names counts colors) = take n st"
  by (simp add: draw_legend_def Let_def fold_legend_row_take ndarray_copy_def)

lemma draw_box_take [simp]:
  "n \<le> out \<Longrightarrow> take n (fst (draw_box cv out det acc)) = take n (fst acc)"
  by (simp add: draw_box_def Let_def)

lemma fold_draw_box_take:
  "n \<le> out \<Longrightarrow> take n (fst (fold (draw_box cv out) dets acc)) = take n (fst acc)"
  by (induction dets arbitrary: acc) simp_all

lemma draw_box_length [simp]:
  "length (fst (draw_box cv out det acc)) = length (fst acc)"
  by (simp add: draw_box_def Let_def)

lemma fold_draw_box_length:
  "length (fst (fold (draw_box cv out) dets acc)) = length (fst acc)"
  by (induction dets arbitrary: acc) simp_all

lemma draw_detections_bgr_take:
  "take (length st) (fst (draw_detections_bgr cv st a dets)) = st"
  by (simp add: draw_detections_bgr_def Let_def ndarray_copy_def draw_legend_take
      fold_draw_box_take fold_draw_box_length)

lemma draw_detections_bgr_out:
  "snd (draw_detections_bgr cv st a dets) = length st"
  by (simp add: draw_detections_bgr_def Let_def ndarray_copy_def)

text \<open>
  Claim C8. The annotate operation does not mutate its input: for every store, every
  array reference \<open>a\<close> in it and every detection list, after the call the array \<open>a\<close>
  holds what it held before, so does every other array that existed before the call, and
  the returned array is a different (fresh) one.
\<close>

theorem annotate_does_not_mutate_input:
  "a < length st \<Longrightarrow>
   fst (draw_detections_bgr cv st a dets) ! a = st ! a \<and>
   take (length st) (fst (draw_detections_bgr cv st a dets)) = st \<and>
   snd (draw_detections_bgr cv st a dets) \<noteq> a"
proof -
  assume a: "a < length st"
  have t: "take (length st) (fst (draw_detections_bgr cv st a dets)) = st"
    by (rule draw_detections_bgr_take)
  have "take (length st) (fst (draw_detections_bgr cv st a dets)) ! a
        = fst (draw_detections_bgr cv st a dets) ! a"
    using a by simp
  with t have "fst (draw_detections_bgr cv st a dets) ! a = st ! a" by simp
  moreover have "snd (draw_detections_bgr cv st a dets) \<noteq> a"
    using a by (simp add: draw_detections_bgr_out)
  ultimately show ?thesis using t by simp
qed

theorem annotate_does_not_mutate_input_witness:
  "(0::nat) < length [[''frame'']] \<and>
   fst (draw_detections_bgr log_lib [[''frame'']] 0 [person, car]) ! 0 = [''frame''] \<and>
   take (length [[''frame'']]) (fst (draw_detections_bgr log_lib [[''frame'']] 0 [person, car]))
     = [[''frame'']] \<and>
   snd (draw_detections_bgr log_lib [[''frame'']] 0 [person, car]) \<noteq> 0"
  using annotate_does_not_mutate_input [of 0 "[[''frame'']]" log_lib "[person, car]"]
  by simp

text \<open>
  Claim C7. Annotating with an empty detection list returns a frame identical to the
  input frame: the only effect of the call is the copy (no drawing primitive is applied,
  so no legend is drawn), and the returned array holds the content of the input array.
\<close>

theorem annotate_empty_is_copy:
  "draw_detections_bgr cv st a [] = (st @ [st ! a], length st) \<and>
   fst (draw_detections_bgr cv st a []) ! snd (draw_detections_bgr cv st a []) = st ! a"
  by (simp add: draw_detections_bgr_def Let_def ndarray_copy_def)

subsection \<open>The legend\<close>

lemma map_of_dict_set: "map_of (dict_set d k v) = (map_of d)(k \<mapsto> v)"
  by (induction d) auto

lemma dict_keys_dict_set:
  "dict_keys (dict_set d k v) =
     (if k \<in> set (dict_keys d) then dict_keys d else dict_keys d @ [k])"
  by (induction d) (force simp: dict_keys_def)+

lemma map_of_setdefault:
  "map_of (setdefault d k v) =
     (case map_of d k of None \<Rightarrow> (map_of d)(k \<mapsto> v) | Some u \<Rightarrow> map_of d)"
  by (auto simp: setdefault_def fun_eq_iff map_add_def split: option.splits)

lemma draw_box_counts:
  "fst (snd (draw_box cv out det acc)) =
     dict_set (fst (snd acc)) (class_name det) (dict_get (fst (snd acc)) (class_name det) 0 + 1)"
  by (simp add: draw_box_def Let_def)

lemma draw_box_colors:
  "snd (snd (draw_box cv out det acc)) =
     setdefault (snd (snd acc)) (class_name det) (color_for_class (class_id det))"
  by (simp add: draw_box_def Let_def)

lemma fold_draw_box_keys:
  "set (dict_keys (fst (snd (fold (draw_box cv out) dets acc)))) =
     set (dict_keys (fst (snd acc))) \<union> class_name ` set dets"
  by (induction dets arbitrary: acc) (auto simp: draw_box_counts dict_keys_dict_set)

lemma fold_draw_box_distinct:
  "distinct (dict_keys (fst (snd acc))) \<Longrightarrow>
   distinct (dict_keys (fst (snd (fold (draw_box cv out) dets acc))))"
  by (induction dets arbitrary: acc) (auto simp: draw_box_counts dict_keys_dict_set)

lemma fold_draw_box_count:
  "dict_get (fst (snd (fold (draw_box cv out) dets acc))) n 0 =
     dict_get (fst (snd acc)) n 0 + class_count dets n"
  by (induction dets arbitrary: acc)
     (auto simp: draw_box_counts class_count_def dict_get_def map_of_dict_set)

lemma fold_draw_box_color:
  "map_of (snd (snd (fold (draw_box cv out) dets acc))) n =
     (case map_of (snd (snd acc)) n of
        Some c \<Rightarrow> Some c
      | None \<Rightarrow> map_option (\<lambda>d. color_for_class (class_id d))
                 (find (\<lambda>d. class_name d = n) dets))"
  by (induction dets arbitrary: acc)
     (auto simp: draw_box_colors map_of_setdefault split: option.splits)

lemma top_of_sorted:
  assumes "sorted (map f xs)" "distinct xs" "inj_on f (set xs)"
    and "n \<in> set (take k xs)" "m \<in> set xs" "m \<notin> set (take k xs)"
  shows "f n < f m"
proof -
  have xs: "xs = take k xs @ drop k xs" by simp
  from assms(5,6) have m: "m \<in> set (drop k xs)"
    by (metis Un_iff append_take_drop_id set_append)
  have "sorted (map f (take k xs) @ map f (drop k xs))"
    using assms(1) by (metis append_take_drop_id map_append)
  then have "f n \<le> f m"
    using assms(4) m by (auto simp: sorted_append)
  moreover have "n \<noteq> m" using assms(4,6) by auto
  moreover have "n \<in> set xs" using assms(4) by (meson in_set_takeD)
  ultimately show ?thesis
    using assms(3,5) by (metis inj_onD order_le_less)
qed

lemma strict_of_sorted:
  "sorted (map f xs) \<Longrightarrow> distinct xs \<Longrightarrow> inj_on f (set xs) \<Longrightarrow> sorted_wrt (\<lambda>a b. f a < f b) xs"
proof (induction xs)
  case Nil
  then show ?case by simp
next
  case (Cons x xs)
  then show ?case
    by (auto simp: order_le_less inj_on_def)
qed

lemma legend_key_less:
  "((- class_count dets n, n) < (- class_count dets m, m)) = legend_before dets n m"
  by (auto simp: legend_before_def less_prod_def)


lemma box_pass_keys:
  "set (dict_keys (fst (snd (fold (draw_box cv out) dets (st0, [], []))))) = class_name ` set dets"
  using fold_draw_box_keys [of cv out dets "(st0, [], [])"] by (simp add: dict_keys_def)

lemma box_pass_distinct:
  "distinct (dict_keys (fst (snd (fold (draw_box cv out) dets (st0, [], [])))))"
  by (rule fold_draw_box_distinct) (simp add: dict_keys_def)

lemma box_pass_count:
  "dict_get (fst (snd (fold (draw_box cv out) dets (st0, [], [])))) n 0 = class_count dets n"
  using fold_draw_box_count [of cv out dets "(st0, [], [])" n] by (simp add: dict_get_def)

lemma find_class_None: "(find (\<lambda>d. class_name d = n) dets = None) = (n \<notin> class_name ` set dets)"
  by (auto simp: find_None_iff)

lemma box_pass_color_keys:
  "set (dict_keys (snd (snd (fold (draw_box cv out) dets (st0, [], []))))) = class_name ` set dets"
proof -
  let ?cl = "snd (snd (fold (draw_box cv out) dets (st0, [], [])))"
  have "dom (map_of ?cl) = class_name ` set dets"
    by (auto simp: dom_def fold_draw_box_color find_class_None)
  then show ?thesis by (simp add: dom_map_of_conv_image_fst dict_keys_def)
qed

lemma box_pass_color:
  "n \<in> class_name ` set dets \<Longrightarrow>
   dict_get (snd (snd (fold (draw_box cv out) dets (st0, [], [])))) n (0, 0, 0) = class_color dets n"
  by (cases "find (\<lambda>d. class_name d = n) dets")
     (auto simp: dict_get_def fold_draw_box_color class_color_def find_class_None)

lemma box_pass_names:
  "legend_names (fst (snd (fold (draw_box cv out) dets (st0, [], [])))) =
     take 12 (sort_key (\<lambda>k. (- class_count dets k, k))
       (dict_keys (fst (snd (fold (draw_box cv out) dets (st0, [], []))))))"
  by (simp add: legend_names_def box_pass_count)

lemma legend_row_of_class:
  assumes "n \<in> class_name ` set dets"
  shows "legend_row cv out (fst (snd (fold (draw_box cv out) dets (st0, [], []))))
           (Some (snd (snd (fold (draw_box cv out) dets (st0, [], []))))) lx n sy =
         (in_place
            (in_place (fst sy) out
               (\<lambda>im. rectangle cv im (lx + 10, snd sy - 12) (lx + 10 + 14, snd sy + 2)
                        (class_color dets n) (- 1)))
            out
            (\<lambda>im. putText cv im (n @ '': '' @ str_int (class_count dets n))
                     (lx + 10 + 22, snd sy) 0.55 (15, 23, 42) 2),
          snd sy + 22)"
proof -
  let ?cl = "snd (snd (fold (draw_box cv out) dets (st0, [], [])))"
  have k: "n \<in> set (dict_keys ?cl)" using assms by (simp add: box_pass_color_keys)
  then have ne: "?cl \<noteq> []" by (auto simp: dict_keys_def)
  show ?thesis
    unfolding legend_row_def Let_def
    using k ne by (simp add: box_pass_count box_pass_color [OF assms])
qed

lemma legend_of_box_pass:
  fixes cv :: "'img lib" and st :: "'img store" and a :: nat and dets :: "detection list"
  defines "out \<equiv> length st"
  defines "acc \<equiv> fold (draw_box cv out) dets (st @ [st ! a], [], [])"
  defines "names \<equiv> legend_names (fst (snd acc))"
  assumes ne: "dets \<noteq> []"
  shows
   "draw_detections_bgr cv st a dets =
      (draw_legend cv (fst acc) out names (fst (snd acc)) (Some (snd (snd acc))), out) \<and>
    names \<noteq> [] \<and>
    length names = min 12 (card (class_name ` set dets)) \<and>
    distinct names \<and>
    set names \<subseteq> class_name ` set dets \<and>
    sorted_wrt (legend_before dets) names \<and>
    (\<forall>n \<in> set names. \<forall>m \<in> class_name ` set dets - set names. legend_before dets n m) \<and>
    (\<forall>n \<in> set names. \<forall>lx sy.
       legend_row cv out (fst (snd acc)) (Some (snd (snd acc))) lx n sy =
         (in_place
            (in_place (fst sy) out
               (\<lambda>im. rectangle cv im (lx + 10, snd sy - 12) (lx + 10 + 14, snd sy + 2)
                        (class_color dets n) (- 1)))
            out
            (\<lambda>im. putText cv im (n @ '': '' @ str_int (class_count dets n))
                     (lx + 10 + 22, snd sy) 0.55 (15, 23, 42) 2),
          snd sy + 22))"
proof -
  let ?keys = "dict_keys (fst (snd acc))"
  let ?f = "\<lambda>k. (- class_count dets k, k)"
  let ?sorted = "sort_key ?f ?keys"
  have keys: "set ?keys = class_name ` set dets"
    unfolding acc_def by (rule box_pass_keys)
  have dist: "distinct ?keys"
    unfolding acc_def by (rule box_pass_distinct)
  have names: "names = take 12 ?sorted"
    unfolding names_def acc_def by (rule box_pass_names)
  have cne: "fst (snd acc) \<noteq> []"
    using keys ne by (auto simp: dict_keys_def)
  have inj: "inj_on ?f (set ?sorted)" by (simp add: inj_on_def)
  have srt: "sorted (map ?f ?sorted)" by (rule sorted_sort_key)
  have dsorted: "distinct ?sorted" using dist by simp
  have c1: "draw_detections_bgr cv st a dets =
      (draw_legend cv (fst acc) out names (fst (snd acc)) (Some (snd (snd acc))), out)"
    using cne unfolding draw_detections_bgr_def names_def acc_def out_def ndarray_copy_def
    by (simp add: Let_def)
  have len: "length ?sorted = card (class_name ` set dets)"
    using dist keys distinct_card [of ?keys] by simp
  have c3: "length names = min 12 (card (class_name ` set dets))"
    using len by (simp add: names min.commute)
  have "0 < card (class_name ` set dets)" using ne by (simp add: card_gt_0_iff)
  with c3 have "0 < length names" by linarith
  then have c2: "names \<noteq> []" by simp
  have c4: "distinct names" using dsorted by (simp add: names)
  have c5: "set names \<subseteq> class_name ` set dets"
    using keys by (auto simp: names dest: in_set_takeD)
  have "sorted_wrt (\<lambda>a b. ?f a < ?f b) ?sorted"
    using srt dsorted inj by (rule strict_of_sorted)
  then have "sorted_wrt (\<lambda>a b. ?f a < ?f b) names"
    unfolding names by (rule sorted_wrt_take)
  then have c6: "sorted_wrt (legend_before dets) names"
    by (simp only: legend_key_less)
  have c7: "\<forall>n \<in> set names. \<forall>m \<in> class_name ` set dets - set names. legend_before dets n m"
  proof (intro ballI)
    fix n m assume n: "n \<in> set names" and m: "m \<in> class_name ` set dets - set names"
    have "?f n < ?f m"
    proof (rule top_of_sorted [OF srt dsorted inj])
      show "n \<in> set (take 12 ?sorted)" using n by (simp add: names)
      show "m \<in> set ?sorted" using m keys by simp
      show "m \<notin> set (take 12 ?sorted)" using m by (simp add: names)
    qed
    then show "legend_before dets n m" by (simp only: legend_key_less)
  qed
  have c8: "\<forall>n \<in> set names. \<forall>lx sy.
       legend_row cv out (fst (snd acc)) (Some (snd (snd acc))) lx n sy =
         (in_place
            (in_place (fst sy) out
               (\<lambda>im. rectangle cv im (lx + 10, snd sy - 12) (lx + 10 + 14, snd sy + 2)
                        (class_color dets n) (- 1)))
            out
            (\<lambda>im. putText cv im (n @ '': '' @ str_int (class_count dets n))
                     (lx + 10 + 22, snd sy) 0.55 (15, 23, 42) 2),
          snd sy + 22)"
  proof (intro ballI allI)
    fix n lx sy
    assume "n \<in> set names"
    then have n: "n \<in> class_name ` set dets" using c5 by auto
    show "legend_row cv out (fst (snd acc)) (Some (snd (snd acc))) lx n sy =
         (in_place
            (in_place (fst sy) out
               (\<lambda>im. rectangle cv im (lx + 10, snd sy - 12) (lx + 10 + 14, snd sy + 2)
                        (class_color dets n) (- 1)))
            out
            (\<lambda>im. putText cv im (n @ '': '' @ str_int (class_count dets n))
                     (lx + 10 + 22, snd sy) 0.55 (15, 23, 42) 2),
          snd sy + 22)"
      unfolding acc_def by (rule legend_row_of_class [OF n])
  qed
  show ?thesis
    by (intro conjI c1 c2 c3 c4 c5 c6 c7 c8)
qed

lemma nth_in_place_same: "a < length st \<Longrightarrow> in_place st a f ! a = f (st ! a)"
  by (simp add: in_place_def)

lemma draw_box_out:
  "out < length (fst acc) \<Longrightarrow>
   fst (draw_box cv out det acc) ! out = box_image cv det (fst acc ! out)"
  by (simp add: draw_box_def box_image_def Let_def nth_in_place_same)

lemma fold_draw_box_out:
  "out < length (fst acc) \<Longrightarrow>
   fst (fold (draw_box cv out) dets acc) ! out = fold (box_image cv) dets (fst acc ! out)"
proof (induction dets arbitrary: acc)
  case Nil
  show ?case by simp
next
  case (Cons det dets)
  have "out < length (fst (draw_box cv out det acc))" using Cons.prems by simp
  from Cons.IH [OF this] show ?case
    by (simp add: draw_box_out [OF Cons.prems])
qed

lemma fold_legend_row_length:
  "length (fst (fold (legend_row cv out counts colors lx1) names sy)) = length (fst sy)"
  by (induction names arbitrary: sy) simp_all

lemma fold_legend_row_out:
  assumes "set names \<subseteq> class_name ` set dets" and "out < length (fst sy)"
  shows "fst (fold (legend_row cv out (fst (snd (fold (draw_box cv out) dets (st0, [], []))))
                 (Some (snd (snd (fold (draw_box cv out) dets (st0, [], []))))) lx) names sy) ! out =
           fst (fold (legend_entry cv dets lx) names (fst sy ! out, snd sy)) \<and>
         snd (fold (legend_row cv out (fst (snd (fold (draw_box cv out) dets (st0, [], []))))
                 (Some (snd (snd (fold (draw_box cv out) dets (st0, [], []))))) lx) names sy) =
           snd (fold (legend_entry cv dets lx) names (fst sy ! out, snd sy))"
  using assms
proof (induction names arbitrary: sy)
  case Nil
  show ?case by simp
next
  case (Cons n names)
  let ?row = "legend_row cv out (fst (snd (fold (draw_box cv out) dets (st0, [], []))))
                 (Some (snd (snd (fold (draw_box cv out) dets (st0, [], []))))) lx"
  have n: "n \<in> class_name ` set dets" and rest: "set names \<subseteq> class_name ` set dets"
    using Cons.prems(1) by simp_all
  note row = legend_row_of_class [OF n, of cv out st0 lx sy]
  have len: "out < length (fst (?row n sy))" using Cons.prems(2) by simp
  have v: "fst (?row n sy) ! out = fst (legend_entry cv dets lx n (fst sy ! out, snd sy))"
    unfolding row legend_entry_def using Cons.prems(2) by (simp add: nth_in_place_same)
  have y: "snd (?row n sy) = snd (legend_entry cv dets lx n (fst sy ! out, snd sy))"
    unfolding row legend_entry_def by simp
  from Cons.IH [OF rest len] v y show ?case
    by (simp add: prod_eq_iff)
qed

lemma draw_legend_out:
  assumes "names \<noteq> []" and "out < length st"
  shows "\<exists>st4. draw_legend cv st out names counts colors =
             fst (fold (legend_row cv out counts colors
                          (max 10 (snd (shape cv (st ! out)) - 10 - 220))) names (st4, 36)) \<and>
           out < length st4 \<and>
           st4 ! out = legend_panel cv (length names) (st ! out)"
  using assms
  apply (simp add: draw_legend_def legend_panel_def Let_def ndarray_copy_def in_place_def
      nth_append)
  apply (rule exI, intro conjI, rule refl)
   apply simp_all
  done

lemma sorted_key_unique:
  assumes "sorted (map f xs)" "distinct xs" "sorted (map f ys)" "distinct ys"
    and "set xs = set ys" and "inj f"
  shows "xs = ys"
proof -
  have "map f xs = map f ys"
  proof (rule sorted_distinct_set_unique)
    show "distinct (map f xs)" using assms(2,6) by (simp add: distinct_map inj_on_def inj_def)
    show "distinct (map f ys)" using assms(4,6) by (simp add: distinct_map inj_on_def inj_def)
    show "set (map f xs) = set (map f ys)" using assms(5) by simp
  qed (rule assms(1), rule assms(3))
  then show ?thesis using assms(6) by (simp add: inj_map_eq_map)
qed

lemma box_pass_top:
  "legend_names (fst (snd (fold (draw_box cv out) dets (st0, [], [])))) = top_classes dets"
proof -
  let ?keys = "dict_keys (fst (snd (fold (draw_box cv out) dets (st0, [], []))))"
  let ?f = "\<lambda>k. (- class_count dets k, k)"
  have "sort_key ?f ?keys = sort_key ?f (remdups (map class_name dets))"
  proof (rule sorted_key_unique [where f = ?f])
    show "distinct (sort_key ?f ?keys)" using box_pass_distinct [of cv out dets st0] by simp
    show "set (sort_key ?f ?keys) = set (sort_key ?f (remdups (map class_name dets)))"
      by (simp add: box_pass_keys)
    show "inj ?f" by (simp add: inj_def)
  qed simp_all
  then show ?thesis by (simp add: box_pass_names top_classes_def)
qed

text \<open>
  Claim C9. For a non-empty detection list the returned image is: all boxes drawn on the
  input image, then the legend panel, then one legend row per listed class name, in the
  order of the list, each row a swatch in the colour of the class and the text
  "name: count" with the number of detections of that class in the frame. The listed
  names are \<open>top_classes\<close>: at least one and at most 12 class names of the frame, without
  repetition, larger counts first and equal counts by ascending name, every class name
  left out coming after every listed one in that order.
\<close>

theorem legend_lists_top_classes:
  fixes cv :: "'img lib" and st :: "'img store" and a :: nat and dets :: "detection list"
  defines "boxes \<equiv> fold (box_image cv) dets (st ! a)"
  defines "names \<equiv> top_classes dets"
  assumes ne: "dets \<noteq> []"
  shows
   "fst (draw_detections_bgr cv st a dets) ! snd (draw_detections_bgr cv st a dets) =
      fst (fold (legend_entry cv dets (max 10 (snd (shape cv boxes) - 10 - 220))) names
             (legend_panel cv (length names) boxes, 36)) \<and>
    names \<noteq> [] \<and>
    length names = min 12 (card (class_name ` set dets)) \<and>
    distinct names \<and>
    set names \<subseteq> class_name ` set dets \<and>
    sorted_wrt (legend_before dets) names \<and>
    (\<forall>n \<in> set names. \<forall>m \<in> class_name ` set dets - set names. legend_before dets n m)"
proof -
  let ?out = "length st"
  let ?acc = "fold (draw_box cv ?out) dets (st @ [st ! a], [], [])"
  have nm: "legend_names (fst (snd ?acc)) = names"
    unfolding names_def by (rule box_pass_top)
  note old = legend_of_box_pass [OF ne, of cv st a, unfolded nm]
  note c1 = old [THEN conjunct1]
  note c2 = old [THEN conjunct2, THEN conjunct1]
  note c3 = old [THEN conjunct2, THEN conjunct2, THEN conjunct1]
  note c4 = old [THEN conjunct2, THEN conjunct2, THEN conjunct2, THEN conjunct1]
  note c5 = old [THEN conjunct2, THEN conjunct2, THEN conjunct2, THEN conjunct2, THEN conjunct1]
  note c6 = old [THEN conjunct2, THEN conjunct2, THEN conjunct2, THEN conjunct2,
      THEN conjunct2, THEN conjunct1]
  note c7 = old [THEN conjunct2, THEN conjunct2, THEN conjunct2, THEN conjunct2,
      THEN conjunct2, THEN conjunct2, THEN conjunct1]
  have lacc: "?out < length (fst ?acc)"
    by (simp add: fold_draw_box_length)
  have "fst ?acc ! ?out = fold (box_image cv) dets ((st @ [st ! a]) ! ?out)"
    using fold_draw_box_out [of ?out "(st @ [st ! a], [], [])" cv dets] by simp
  then have bx: "fst ?acc ! ?out = boxes"
    by (simp add: boxes_def)
  from draw_legend_out [OF c2 lacc, of cv "fst (snd ?acc)" "Some (snd (snd ?acc))"]
  obtain st4 where
    d: "draw_legend cv (fst ?acc) ?out names (fst (snd ?acc)) (Some (snd (snd ?acc))) =
          fst (fold (legend_row cv ?out (fst (snd ?acc)) (Some (snd (snd ?acc)))
                 (max 10 (snd (shape cv (fst ?acc ! ?out)) - 10 - 220))) names (st4, 36))"
    and l4: "?out < length st4"
    and p4: "st4 ! ?out = legend_panel cv (length names) (fst ?acc ! ?out)"
    by blast
  have l4': "?out < length (fst (st4, 36::int))" using l4 by simp
  note rows = fold_legend_row_out [OF c5 l4', of cv "st @ [st ! a]"
      "max 10 (snd (shape cv (fst ?acc ! ?out)) - 10 - 220)", THEN conjunct1]
  have "fst (draw_detections_bgr cv st a dets) ! snd (draw_detections_bgr cv st a dets) =
          draw_legend cv (fst ?acc) ?out names (fst (snd ?acc)) (Some (snd (snd ?acc))) ! ?out"
    by (simp add: c1)
  also have "\<dots> = fst (fold (legend_entry cv dets
                (max 10 (snd (shape cv (fst ?acc ! ?out)) - 10 - 220))) names
             (st4 ! ?out, 36))"
    unfolding d using rows by simp
  finally have n1: "fst (draw_detections_bgr cv st a dets) ! snd (draw_detections_bgr cv st a dets) =
      fst (fold (legend_entry cv dets (max 10 (snd (shape cv boxes) - 10 - 220))) names
             (legend_panel cv (length names) boxes, 36))"
    by (simp add: p4 bx)
  show ?thesis by (intro conjI n1 c2 c3 c4 c5 c6 c7)
qed

theorem legend_lists_top_classes_witness:
  "[person, car, person] \<noteq> [] \<and>
   top_classes [person, car, person] = [''person'', ''car''] \<and>
   fst (draw_detections_bgr log_lib [[]] 0 [person, car, person]) !
     snd (draw_detections_bgr log_lib [[]] 0 [person, car, person]) =
     [''rectangle'', ''rectangle'', ''person 0.90'',
      ''rectangle'', ''rectangle'', ''car 0.90'',
      ''rectangle'', ''rectangle'', ''person 0.90'',
      ''overlay'', ''rectangle'',
      ''rectangle'', ''person: 2'',
      ''rectangle'', ''car: 1''] \<and>
   sorted_wrt (legend_before [person, car, person]) [''person'', ''car'']"
proof -
  have ne: "[person, car, person] \<noteq> []" by simp
  have top: "top_classes [person, car, person] = [''person'', ''car'']"
    by (simp add: top_classes_def class_count_def person_def car_def less_eq_prod_def
      less_char_def less_eq_char_def)
  note t = legend_lists_top_classes [OF ne, of log_lib "[[]]" 0, unfolded top]
  have img: "fst (fold (legend_entry log_lib [person, car, person]
        (max 10 (snd (shape log_lib
           (fold (box_image log_lib) [person, car, person] ([[]] ! 0))) - 10 - 220)))
        [''person'', ''car'']
        (legend_panel log_lib (length [''person'', ''car''])
           (fold (box_image log_lib) [person, car, person] ([[]] ! 0)), 36)) =
     [''rectangle'', ''rectangle'', ''person 0.90'',
      ''rectangle'', ''rectangle'', ''car 0.90'',
      ''rectangle'', ''rectangle'', ''person 0.90'',
      ''overlay'', ''rectangle'',
      ''rectangle'', ''person: 2'',
      ''rectangle'', ''car: 1'']"
    by (simp add: legend_entry_def legend_panel_def box_image_def log_lib_def Let_def
        class_count_def person_def car_def str_int_def str_nat.simps)
  from t [THEN conjunct1] img
  have r: "fst (draw_detections_bgr log_lib [[]] 0 [person, car, person]) !
     snd (draw_detections_bgr log_lib [[]] 0 [person, car, person]) =
     [''rectangle'', ''rectangle'', ''person 0.90'',
      ''rectangle'', ''rectangle'', ''car 0.90'',
      ''rectangle'', ''rectangle'', ''person 0.90'',
      ''overlay'', ''rectangle'',
      ''rectangle'', ''person: 2'',
      ''rectangle'', ''car: 1'']"
    by (rule trans)
  note s = t [THEN conjunct2, THEN conjunct2, THEN conjunct2, THEN conjunct2,
      THEN conjunct2, THEN conjunct1]
  show ?thesis by (intro conjI ne top r s)
qed

section \<open>Properties of the streaming loop\<close>

lemma loop_inv_init: "loop_inv step \<lparr>per_frame = [], flat = [], frame_idx = 0, sampled = 0, written = []\<rparr>"
  by (simp add: loop_inv_def)

lemma upto_snoc: "0 \<le> n \<Longrightarrow> [0..n] = [0..n - 1] @ [n]"
  using upto_rec2 [of 0 n] by simp

lemma process_frame_inv:
  assumes "loop_inv step s" and "process_frame cv env conf fps_v step frame s = Inr s'"
  shows "loop_inv step s'"
proof (cases "frame_idx s mod step = 0")
  case True
  with assms(2) obtain dets where d: "predict_image env frame conf = Some dets"
    by (auto simp: process_frame_def split: option.splits)
  with True assms(2) have s': "s' = s\<lparr>flat := flat s @ dets,
                    sampled := sampled s + 1,
                    per_frame := per_frame s @
                      [\<lparr>frame_index = frame_idx s,
                        timestamp_s =
                          (if fps_v \<noteq> 0 then real_of_int (frame_idx s) / fps_v else 0),
                        detections = map asdict dets\<rparr>],
                    written := written s @ [annotate cv frame dets],
                    frame_idx := frame_idx s + 1\<rparr>"
    by (simp add: process_frame_def)
  show ?thesis
    using assms(1) True upto_snoc [of "frame_idx s"] unfolding loop_inv_def s' by simp
next
  case False
  with assms(2) have s': "s' = s\<lparr>written := written s @ [frame], frame_idx := frame_idx s + 1\<rparr>"
    by (simp add: process_frame_def)
  show ?thesis
    using assms(1) False upto_snoc [of "frame_idx s"] unfolding loop_inv_def s' by simp
qed

lemma process_frame_idx:
  "process_frame cv env conf fps_v step frame s = Inr s' \<Longrightarrow> frame_idx s' = frame_idx s + 1"
  by (auto simp: process_frame_def split: if_splits option.splits)

lemma read_loop_inv:
  "loop_inv step s \<Longrightarrow> read_loop cv env conf fps_v step max_frames fs s = Inr s' \<Longrightarrow>
   loop_inv step s'"
proof (induction fs arbitrary: s)
  case Nil
  then show ?case by simp
next
  case (Cons frame rest)
  from Cons.prems(2) obtain s1 where
    s1: "process_frame cv env conf fps_v step frame s = Inr s1"
    by (auto split: sum.splits)
  have inv1: "loop_inv step s1" by (rule process_frame_inv [OF Cons.prems(1) s1])
  show ?case
  proof (cases "max_frames \<noteq> 0 \<and> frame_idx s1 \<ge> max_frames")
    case True
    with Cons.prems(2) s1 have "s' = s1" by simp
    with inv1 show ?thesis by simp
  next
    case False
    with Cons.prems(2) s1 have "read_loop cv env conf fps_v step max_frames rest s1 = Inr s'"
      by auto
    with inv1 show ?thesis by (rule Cons.IH)
  qed
qed

lemma read_loop_count:
  "read_loop cv env conf fps_v step max_frames fs s = Inr s' \<Longrightarrow>
   frame_idx s' =
     (if max_frames = 0 then frame_idx s + int (length fs)
      else if fs = [] then frame_idx s
      else min (frame_idx s + int (length fs)) (max max_frames (frame_idx s + 1)))"
proof (induction fs arbitrary: s)
  case Nil
  then show ?case by simp
next
  case (Cons frame rest)
  from Cons.prems obtain s1 where
    s1: "process_frame cv env conf fps_v step frame s = Inr s1"
    by (auto split: sum.splits)
  then have i1: "frame_idx s1 = frame_idx s + 1" by (rule process_frame_idx)
  show ?case
  proof (cases "max_frames \<noteq> 0 \<and> frame_idx s1 \<ge> max_frames")
    case True
    with Cons.prems s1 have "s' = s1" by simp
    with True i1 show ?thesis by auto
  next
    case False
    with Cons.prems s1 have "read_loop cv env conf fps_v step max_frames rest s1 = Inr s'"
      by auto
    from Cons.IH [OF this] False i1 show ?thesis by (auto split: if_splits)
  qed
qed

lemma div_round_up:
  fixes n step :: int
  assumes "1 \<le> step"
  shows "(n + step - 1) div step = n div step + (if n mod step = 0 then 0 else 1)"
proof -
  have s0: "step \<noteq> 0" and r: "0 \<le> n mod step" "n mod step < step"
    using assms by simp_all
  have e: "n + step - 1 = (n mod step + step - 1) + step * (n div step)"
    by simp
  have "(n + step - 1) div step = ((n mod step + step - 1) + step * (n div step)) div step"
    by (rule arg_cong [OF e])
  also have "\<dots> = n div step + (n mod step + step - 1) div step"
    using s0 by (rule div_mult_self2)
  finally have b: "(n + step - 1) div step = n div step + (n mod step + step - 1) div step" .
  have c: "(n mod step + step - 1) div step = (if n mod step = 0 then 0 else 1)"
  proof (cases "n mod step = 0")
    case True
    then show ?thesis using assms by simp
  next
    case False
    with r have "0 \<le> n mod step - 1" "n mod step - 1 < step" by simp_all
    then have "(n mod step - 1) div step = 0" by simp
    moreover have "(n mod step + step - 1) div step = (n mod step - 1) div step + 1"
      using s0 div_add_self2 [of step "n mod step - 1"] by (simp add: algebra_simps)
    ultimately show ?thesis using False by simp
  qed
  show ?thesis using b c by simp
qed

lemma count_multiples:
  "0 \<le> n \<Longrightarrow> 1 \<le> step \<Longrightarrow>
   int (length (filter (\<lambda>i. i mod step = 0) [0..n - 1])) = (n + step - 1) div step"
proof (induction n rule: int_ge_induct)
  case base
  then show ?case by simp
next
  case (step n)
  have s0: "step \<noteq> 0" using step.prems by simp
  have "(n + 1 + step - 1) div step = n div step + 1"
    using s0 by simp
  then have more: "(n + 1 + step - 1) div step =
        (n + step - 1) div step + (if n mod step = 0 then 1 else 0)"
    using div_round_up [OF step.prems, of n] by simp
  show ?case using step.hyps step.IH [OF step.prems] more upto_snoc [of n] by simp
qed

lemma process_frame_records:
  assumes "process_frame cv env conf fps_v step frame s = Inr s'"
    and "0 \<le> frame_idx s" and "nat (frame_idx s) < length all"
    and "all ! nat (frame_idx s) = frame"
    and "list_all (record_of env conf all) (per_frame s)"
  shows "list_all (record_of env conf all) (per_frame s')"
  using assms
  by (auto simp: process_frame_def record_of_def split: if_splits option.splits)

lemma read_loop_records:
  assumes "read_loop cv env conf fps_v step max_frames fs s = Inr s'"
    and "fs = drop (nat (frame_idx s)) all" and "0 \<le> frame_idx s"
    and "list_all (record_of env conf all) (per_frame s)"
  shows "list_all (record_of env conf all) (per_frame s')"
  using assms
proof (induction fs arbitrary: s)
  case Nil
  then show ?case by simp
next
  case (Cons frame rest)
  from Cons.prems(1) obtain s1 where
    s1: "process_frame cv env conf fps_v step frame s = Inr s1"
    by (auto split: sum.splits)
  have i1: "frame_idx s1 = frame_idx s + 1" using s1 by (rule process_frame_idx)
  let ?n = "nat (frame_idx s)"
  have n: "?n < length all"
    using Cons.prems(2) by (metis drop_all leI list.distinct(1))
  then have d: "drop ?n all = all ! ?n # drop (Suc ?n) all"
    by (simp add: Cons_nth_drop_Suc)
  with Cons.prems(2) have fr: "all ! ?n = frame" and rest: "rest = drop (Suc ?n) all"
    by simp_all
  have rest': "rest = drop (nat (frame_idx s1)) all"
    using rest i1 Cons.prems(3) by (simp add: nat_add_distrib)
  have rec1: "list_all (record_of env conf all) (per_frame s1)"
    by (rule process_frame_records [OF s1 Cons.prems(3) n fr Cons.prems(4)])
  show ?case
  proof (cases "max_frames \<noteq> 0 \<and> frame_idx s1 \<ge> max_frames")
    case True
    with Cons.prems(1) s1 have "s' = s1" by simp
    with rec1 show ?thesis by simp
  next
    case False
    with Cons.prems(1) s1 have "read_loop cv env conf fps_v step max_frames rest s1 = Inr s'"
      by auto
    from Cons.IH [OF this rest' _ rec1] i1 Cons.prems(3) show ?thesis by simp
  qed
qed

section \<open>Properties of the pipeline\<close>

lemma process_video_Inr:
  fixes cv :: "'img lib"
  assumes "fst (process_video cv env video output_path conf k max_frames w) = Inr (m, fl, pf)"
  obtains s :: "'img loop" where
    "read_loop cv env conf (if prop_fps video = 0 then 25 else prop_fps video) (max 1 k)
       max_frames (loop_input cv video)
       \<lparr>per_frame = [], flat = [], frame_idx = 0, sampled = 0, written = []\<rparr> = Inr s"
    and "frames_read m = frame_idx s" and "frame_step m = max 1 k"
    and "sampled_frames m = sampled s" and "fl = flat s" and "pf = per_frame s"
    and "files (snd (process_video cv env video output_path conf k max_frames w)) =
           transcode_step env (with_suffix env output_path ''.raw.mp4'') output_path
             ((files w)(with_suffix env output_path ''.raw.mp4'' \<mapsto> mp4v env (written s)))"
    and "cap_open (snd (process_video cv env video output_path conf k max_frames w)) = False"
    and "writer_open (snd (process_video cv env video output_path conf k max_frames w)) = False"
  using assms
  unfolding process_video_def loop_input_def Let_def
  by (auto split: if_splits sum.splits prod.splits)

text \<open>The pipeline evaluated on the concrete inputs.\<close>

lemma run3:
  "fst (process_video log_lib env0 video3 ''out.mp4'' (1/4) 2 0 w0) =
     Inr (\<lparr>fps = 25, width = 640, height = 480, total_frames = 3, frames_read = 3,
            frame_step = 2, sampled_frames = 2\<rparr>,
          [person, car],
          [\<lparr>frame_index = 0, timestamp_s = 0, detections = [asdict person, asdict car]\<rparr>,
           \<lparr>frame_index = 2, timestamp_s = 2 / 25, detections = []\<rparr>])"
  by (simp add: process_video_def probe_def Let_def video3_def env0_def w0_def
      process_frame_def py_int_def)

lemma run13:
  "fst (process_video log_lib env0 video13 ''out.mp4'' (1/4) 5 12 w0) =
     Inr (\<lparr>fps = 25, width = 640, height = 480, total_frames = 13, frames_read = 12,
            frame_step = 5, sampled_frames = 3\<rparr>,
          [],
          [\<lparr>frame_index = 0, timestamp_s = 0, detections = []\<rparr>,
           \<lparr>frame_index = 5, timestamp_s = 1 / 5, detections = []\<rparr>,
           \<lparr>frame_index = 10, timestamp_s = 2 / 5, detections = []\<rparr>])"
  by (simp add: process_video_def probe_def Let_def video13_def env0_def w0_def
      process_frame_def py_int_def numeral_eq_Suc)

lemma run3_zero:
  "fst (process_video log_lib env0 video3 ''out.mp4'' (1/4) 0 0 w0) =
     Inr (\<lparr>fps = 25, width = 640, height = 480, total_frames = 3, frames_read = 3,
            frame_step = 1, sampled_frames = 3\<rparr>,
          [person, car],
          [\<lparr>frame_index = 0, timestamp_s = 0, detections = [asdict person, asdict car]\<rparr>,
           \<lparr>frame_index = 1, timestamp_s = 1 / 25, detections = []\<rparr>,
           \<lparr>frame_index = 2, timestamp_s = 2 / 25, detections = []\<rparr>])"
  by (simp add: process_video_def probe_def Let_def video3_def env0_def w0_def
      process_frame_def py_int_def)

lemma run_empty:
  "fst (process_video log_lib env0 video_empty ''out.mp4'' (1/4) 5 0 w0) =
     Inr (\<lparr>fps = 25, width = 640, height = 480, total_frames = 0, frames_read = 0,
            frame_step = 5, sampled_frames = 0\<rparr>, [], [])"
  by (simp add: process_video_def probe_def Let_def video_empty_def env0_def w0_def
      process_frame_def py_int_def)

lemma loop_input_video13: "loop_input log_lib video13 = replicate 13 [''f'']"
  by (simp add: loop_input_def probe_def video13_def py_int_def Let_def)

lemma asdict_inj: "asdict d = asdict d' \<Longrightarrow> d = d'"
  by (cases d, cases d') (simp add: asdict_def)

lemma map_asdict_inj: "map asdict xs = map asdict ys \<Longrightarrow> xs = ys"
  using asdict_inj by (metis inj_onI list.inj_map_strong)

lemma concat_records:
  "list_all (record_of env conf all) pf \<Longrightarrow>
   concat (map detections pf) =
     map asdict (concat (map (\<lambda>r. the (predict_image env (all ! nat (frame_index r)) conf)) pf))"
  by (induction pf) (auto simp: record_of_def)

lemma process_video_inv:
  fixes cv :: "'img lib"
  assumes "fst (process_video cv env video output_path conf k max_frames w) = Inr (m, fl, pf)"
  obtains s :: "'img loop" where
    "loop_inv (max 1 k) s" and "list_all (record_of env conf (loop_input cv video)) (per_frame s)"
    and "frames_read m = frame_idx s" and "frame_step m = max 1 k"
    and "sampled_frames m = sampled s" and "fl = flat s" and "pf = per_frame s"
    and "frame_idx s =
     (if max_frames = 0 then int (length (loop_input cv video))
      else if loop_input cv video = [] then 0
      else min (int (length (loop_input cv video))) (max max_frames 1))"
    and "files (snd (process_video cv env video output_path conf k max_frames w)) =
           transcode_step env (with_suffix env output_path ''.raw.mp4'') output_path
             ((files w)(with_suffix env output_path ''.raw.mp4'' \<mapsto> mp4v env (written s)))"
proof -
  from assms obtain s :: "'img loop" where
    rl: "read_loop cv env conf (if prop_fps video = 0 then 25 else prop_fps video) (max 1 k)
       max_frames (loop_input cv video)
       \<lparr>per_frame = [], flat = [], frame_idx = 0, sampled = 0, written = []\<rparr> = Inr s"
    and m: "frames_read m = frame_idx s" "frame_step m = max 1 k"
      "sampled_frames m = sampled s" "fl = flat s" "pf = per_frame s"
    and fs: "files (snd (process_video cv env video output_path conf k max_frames w)) =
           transcode_step env (with_suffix env output_path ''.raw.mp4'') output_path
             ((files w)(with_suffix env output_path ''.raw.mp4'' \<mapsto> mp4v env (written s)))"
    by (rule process_video_Inr)
  have inv: "loop_inv (max 1 k) s"
    by (rule read_loop_inv [OF loop_inv_init rl])
  have rec: "list_all (record_of env conf (loop_input cv video)) (per_frame s)"
    by (rule read_loop_records [OF rl]) simp_all
  have cnt: "frame_idx s =
     (if max_frames = 0 then int (length (loop_input cv video))
      else if loop_input cv video = [] then 0
      else min (int (length (loop_input cv video))) (max max_frames 1))"
    using read_loop_count [OF rl] by simp
  show thesis by (rule that [OF inv rec m cnt fs])
qed

text \<open>
  Claim C1. For every invocation that completes, \<open>sampled_frames\<close> is the length of
  \<open>per_frame\<close>, and the flat detection list is the concatenation, in frame order, of the
  detections of the frame records: the records hold the \<^verbatim>\<open>asdict\<close> form of the flat
  detections in the same order, each record holds the detector's output on its frame in
  the detector's order, and the flat list is the concatenation of these outputs.
\<close>

theorem flat_is_concat_of_per_frame:
  fixes cv :: "'img lib"
  assumes "fst (process_video cv env video output_path conf k max_frames w) = Inr (m, fl, pf)"
  shows "sampled_frames m = int (length pf) \<and>
         map asdict fl = concat (map detections pf) \<and>
         list_all (record_of env conf (loop_input cv video)) pf \<and>
         fl = concat (map (\<lambda>r. the (predict_image env
                  (loop_input cv video ! nat (frame_index r)) conf)) pf)"
proof -
  from assms obtain s :: "'img loop" where inv: "loop_inv (max 1 k) s"
    and rec: "list_all (record_of env conf (loop_input cv video)) (per_frame s)"
    and m: "sampled_frames m = sampled s" "fl = flat s" "pf = per_frame s"
    by (rule process_video_inv)
  have a: "sampled_frames m = int (length pf)"
    using inv m by (simp add: loop_inv_def)
  have b: "map asdict fl = concat (map detections pf)"
    using inv m by (simp add: loop_inv_def)
  have c: "list_all (record_of env conf (loop_input cv video)) pf"
    using rec m by simp
  have "map asdict fl = map asdict (concat (map (\<lambda>r. the (predict_image env
                  (loop_input cv video ! nat (frame_index r)) conf)) pf))"
    using b concat_records [OF c] by simp
  then have d: "fl = concat (map (\<lambda>r. the (predict_image env
                  (loop_input cv video ! nat (frame_index r)) conf)) pf)"
    by (rule map_asdict_inj)
  show ?thesis by (intro conjI a b c d)
qed

theorem flat_is_concat_of_per_frame_witness:
  "fst (process_video log_lib env0 video3 ''out.mp4'' (1/4) 2 0 w0) =
     Inr (\<lparr>fps = 25, width = 640, height = 480, total_frames = 3, frames_read = 3,
            frame_step = 2, sampled_frames = 2\<rparr>,
          [person, car],
          [\<lparr>frame_index = 0, timestamp_s = 0, detections = [asdict person, asdict car]\<rparr>,
           \<lparr>frame_index = 2, timestamp_s = 2 / 25, detections = []\<rparr>]) \<and>
   sampled_frames \<lparr>fps = 25, width = 640, height = 480, total_frames = 3, frames_read = 3,
            frame_step = 2, sampled_frames = 2\<rparr> = int (length
          [\<lparr>frame_index = 0, timestamp_s = 0, detections = [asdict person, asdict car]\<rparr>,
           \<lparr>frame_index = 2, timestamp_s = 2 / 25, detections = []\<rparr>]) \<and>
   map asdict [person, car] = concat (map detections
          [\<lparr>frame_index = 0, timestamp_s = 0, detections = [asdict person, asdict car]\<rparr>,
           \<lparr>frame_index = 2, timestamp_s = 2 / 25, detections = []\<rparr>])"
proof -
  note t = flat_is_concat_of_per_frame [OF run3]
  show ?thesis by (intro conjI run3 t [THEN conjunct1] t [THEN conjunct2, THEN conjunct1])
qed

lemma indices_of_inv:
  assumes "loop_inv step s"
  shows "map frame_index (per_frame s) = filter (\<lambda>i. i mod step = 0) [0..frame_idx s - 1]"
  using assms by (simp add: loop_inv_def)

text \<open>
  Claim C4. For every invocation that completes, the effective stride is at least 1,
  every frame record has a \<open>frame_index\<close> that is a multiple of it, and the sequence of
  the \<open>frame_index\<close> values of \<open>per_frame\<close> is strictly increasing.
\<close>

theorem frame_indices_multiples_increasing:
  fixes cv :: "'img lib"
  assumes "fst (process_video cv env video output_path conf k max_frames w) = Inr (m, fl, pf)"
  shows "1 \<le> frame_step m \<and>
         list_all (\<lambda>r. frame_index r mod frame_step m = 0) pf \<and>
         sorted_wrt (<) (map frame_index pf)"
proof -
  from assms obtain s :: "'img loop" where inv: "loop_inv (max 1 k) s"
    and m: "frame_step m = max 1 k" "pf = per_frame s"
    by (rule process_video_inv)
  have idx: "map frame_index pf = filter (\<lambda>i. i mod max 1 k = 0) [0..frame_idx s - 1]"
    using indices_of_inv [OF inv] m by simp
  have a: "1 \<le> frame_step m" using m by simp
  have "list_all (\<lambda>i. i mod max 1 k = 0) (map frame_index pf)"
    unfolding idx by (simp add: list_all_iff)
  then have b: "list_all (\<lambda>r. frame_index r mod frame_step m = 0) pf"
    using m by (simp add: list_all_iff)
  have c: "sorted_wrt (<) (map frame_index pf)"
    unfolding idx by (rule sorted_wrt_filter) simp
  show ?thesis by (intro conjI a b c)
qed

theorem frame_indices_multiples_increasing_witness:
  "fst (process_video log_lib env0 video3 ''out.mp4'' (1/4) 2 0 w0) =
     Inr (\<lparr>fps = 25, width = 640, height = 480, total_frames = 3, frames_read = 3,
            frame_step = 2, sampled_frames = 2\<rparr>,
          [person, car],
          [\<lparr>frame_index = 0, timestamp_s = 0, detections = [asdict person, asdict car]\<rparr>,
           \<lparr>frame_index = 2, timestamp_s = 2 / 25, detections = []\<rparr>]) \<and>
   1 \<le> (2::int) \<and>
   list_all (\<lambda>r. frame_index r mod 2 = 0)
          [\<lparr>frame_index = 0, timestamp_s = 0, detections = [asdict person, asdict car]\<rparr>,
           \<lparr>frame_index = 2, timestamp_s = 2 / 25, detections = []\<rparr>] \<and>
   sorted_wrt (<) [0, 2::int]"
proof -
  note t = frame_indices_multiples_increasing [OF run3]
  from t have "1 \<le> (2::int) \<and>
   list_all (\<lambda>r. frame_index r mod 2 = 0)
          [\<lparr>frame_index = 0, timestamp_s = 0, detections = [asdict person, asdict car]\<rparr>,
           \<lparr>frame_index = 2, timestamp_s = 2 / 25, detections = []\<rparr>] \<and>
   sorted_wrt (<) [0, 2::int]" by simp
  with run3 show ?thesis by (rule conjI)
qed

lemma sampled_of_inv:
  assumes "loop_inv step s" and "1 \<le> step"
  shows "sampled s = (frame_idx s + step - 1) div step"
proof -
  from assms(1) have n: "0 \<le> frame_idx s"
    and sm: "sampled s = int (length (per_frame s))"
    and idx: "map frame_index (per_frame s) = filter (\<lambda>i. i mod step = 0) [0..frame_idx s - 1]"
    by (simp_all add: loop_inv_def)
  have "length (per_frame s) = length (map frame_index (per_frame s))" by simp
  also have "\<dots> = length (filter (\<lambda>i. i mod step = 0) [0..frame_idx s - 1])"
    by (simp only: idx)
  finally show ?thesis using count_multiples [OF n assms(2)] sm by simp
qed

text \<open>
  Claim C10. For every invocation that completes, \<open>sampled_frames\<close> is
  \<open>frames_read\<close> divided by the clamped stride, rounded up; when at least one frame was
  decoded this is \<open>(frames_read - 1) div frame_step + 1\<close> and the first frame record is
  that of the frame of index 0; when no frame was decoded it is 0.
\<close>

theorem sampled_is_ceiling:
  fixes cv :: "'img lib"
  assumes "fst (process_video cv env video output_path conf k max_frames w) = Inr (m, fl, pf)"
  shows "sampled_frames m = (frames_read m + frame_step m - 1) div frame_step m \<and>
         sampled_frames m = \<lceil>real_of_int (frames_read m) / real_of_int (frame_step m)\<rceil> \<and>
         (1 \<le> frames_read m \<longrightarrow>
            sampled_frames m = (frames_read m - 1) div frame_step m + 1 \<and>
            pf \<noteq> [] \<and> frame_index (hd pf) = 0) \<and>
         (frames_read m = 0 \<longrightarrow> sampled_frames m = 0)"
proof -
  from assms obtain s :: "'img loop" where inv: "loop_inv (max 1 k) s"
    and m: "frames_read m = frame_idx s" "frame_step m = max 1 k"
      "sampled_frames m = sampled s" "pf = per_frame s"
    by (rule process_video_inv)
  let ?n = "frames_read m" and ?d = "frame_step m"
  have d: "1 \<le> ?d" using m by simp
  have a: "sampled_frames m = (?n + ?d - 1) div ?d"
    using sampled_of_inv [OF inv] m by simp
  have "(?n + ?d - 1) div ?d = - (- ?n div ?d)"
    using d div_round_up [OF d, of ?n] zdiv_zminus1_eq_if [of ?d ?n] by simp
  then have b: "sampled_frames m = \<lceil>real_of_int ?n / real_of_int ?d\<rceil>"
    using a by (simp add: ceiling_divide_eq_div)
  have c: "1 \<le> ?n \<longrightarrow>
            sampled_frames m = (?n - 1) div ?d + 1 \<and> pf \<noteq> [] \<and> frame_index (hd pf) = 0"
  proof
    assume n: "1 \<le> ?n"
    have "(?n + ?d - 1) div ?d = (?n - 1) div ?d + 1"
      using d div_add_self2 [of ?d "?n - 1"] by (simp add: algebra_simps)
    with a have c1: "sampled_frames m = (?n - 1) div ?d + 1" by simp
    have idx: "map frame_index pf = filter (\<lambda>i. i mod max 1 k = 0) [0..frame_idx s - 1]"
      using indices_of_inv [OF inv] m by simp
    have "[0..frame_idx s - 1] = 0 # [1..frame_idx s - 1]"
      using n m upto_rec1 [of 0 "frame_idx s - 1"] by simp
    with idx have "map frame_index pf = 0 # filter (\<lambda>i. i mod max 1 k = 0) [1..frame_idx s - 1]"
      by simp
    then have "pf \<noteq> [] \<and> frame_index (hd pf) = 0"
      by (cases pf) auto
    with c1 show "sampled_frames m = (?n - 1) div ?d + 1 \<and> pf \<noteq> [] \<and> frame_index (hd pf) = 0"
      by simp
  qed
  have e: "?n = 0 \<longrightarrow> sampled_frames m = 0"
    using a d by (auto simp: div_pos_pos_trivial)
  show ?thesis by (intro conjI a b c e)
qed

theorem sampled_is_ceiling_witness:
  "fst (process_video log_lib env0 video3 ''out.mp4'' (1/4) 2 0 w0) =
     Inr (\<lparr>fps = 25, width = 640, height = 480, total_frames = 3, frames_read = 3,
            frame_step = 2, sampled_frames = 2\<rparr>,
          [person, car],
          [\<lparr>frame_index = 0, timestamp_s = 0, detections = [asdict person, asdict car]\<rparr>,
           \<lparr>frame_index = 2, timestamp_s = 2 / 25, detections = []\<rparr>]) \<and>
   (2::int) = (3 + 2 - 1) div 2 \<and> (2::int) = \<lceil>3 / (2::real)\<rceil> \<and>
   (1::int) \<le> 3 \<and> (2::int) = (3 - 1) div 2 + 1 \<and>
   frame_index (hd
          [\<lparr>frame_index = 0, timestamp_s = 0, detections = [asdict person, asdict car]\<rparr>,
           \<lparr>frame_index = 2, timestamp_s = 2 / 25, detections = []\<rparr>]) = 0 \<and>
   fst (process_video log_lib env0 video_empty ''out.mp4'' (1/4) 5 0 w0) =
     Inr (\<lparr>fps = 25, width = 640, height = 480, total_frames = 0, frames_read = 0,
            frame_step = 5, sampled_frames = 0\<rparr>, [], []) \<and>
   sampled_frames \<lparr>fps = 25, width = 640, height = 480, total_frames = 0, frames_read = 0,
            frame_step = 5, sampled_frames = 0\<rparr> = 0"
proof -
  note t = sampled_is_ceiling [OF run3]
  note e = sampled_is_ceiling [OF run_empty]
  have one: "1 \<le> frames_read \<lparr>fps = 25, width = 640, height = 480, total_frames = 3,
       frames_read = 3, frame_step = 2, sampled_frames = 2\<rparr>" by simp
  have zero: "frames_read \<lparr>fps = 25, width = 640, height = 480, total_frames = 0,
       frames_read = 0, frame_step = 5, sampled_frames = 0\<rparr> = 0" by simp
  note t3 = t [THEN conjunct2, THEN conjunct2, THEN conjunct1, rule_format, OF one]
  note e4 = e [THEN conjunct2, THEN conjunct2, THEN conjunct2, rule_format, OF zero]
  from t have a: "(2::int) = (3 + 2 - 1) div 2" by simp
  from t have b: "(2::int) = \<lceil>3 / (2::real)\<rceil>" by simp
  from t3 have c: "(2::int) = (3 - 1) div 2 + 1" by simp
  have d: "(1::int) \<le> 3" by simp
  show ?thesis
    by (intro conjI run3 a b d c t3 [THEN conjunct2, THEN conjunct2] run_empty e4)
qed

text \<open>
  Claim C3. For \<open>max_frames = N > 0\<close> and an invocation that completes, decoding stops
  once \<open>N\<close> frames are decoded: \<open>frames_read\<close> is the smaller of \<open>N\<close> and the number of
  frames the source gives, so \<open>frames_read \<le> N\<close>; every decoded frame, the one at the
  cutoff included, was written (the intermediate file handed to the transcoder holds
  \<open>frames_read\<close> frames); and for stride 5 and \<open>N = 12\<close> on a source of at least 12
  frames, \<open>frames_read = 12\<close> and the sampled indices are 0, 5, 10.
\<close>

theorem max_frames_cutoff:
  fixes cv :: "'img lib"
  assumes "fst (process_video cv env video output_path conf k N w) = Inr (m, fl, pf)"
    and "0 < N"
  shows "frames_read m \<le> N \<and>
         frames_read m = min N (int (length (loop_input cv video))) \<and>
         (\<exists>ws. int (length ws) = frames_read m \<and>
            files (snd (process_video cv env video output_path conf k N w)) =
              transcode_step env (with_suffix env output_path ''.raw.mp4'') output_path
                ((files w)(with_suffix env output_path ''.raw.mp4'' \<mapsto> mp4v env ws))) \<and>
         (k = 5 \<and> N = 12 \<and> 12 \<le> length (loop_input cv video) \<longrightarrow>
            frames_read m = 12 \<and> map frame_index pf = [0, 5, 10])"
proof -
  from assms(1) obtain s :: "'img loop" where inv: "loop_inv (max 1 k) s"
    and m: "frames_read m = frame_idx s" "pf = per_frame s"
    and cnt: "frame_idx s =
     (if N = 0 then int (length (loop_input cv video))
      else if loop_input cv video = [] then 0
      else min (int (length (loop_input cv video))) (max N 1))"
    and fs: "files (snd (process_video cv env video output_path conf k N w)) =
           transcode_step env (with_suffix env output_path ''.raw.mp4'') output_path
             ((files w)(with_suffix env output_path ''.raw.mp4'' \<mapsto> mp4v env (written s)))"
    by (rule process_video_inv)
  have b: "frames_read m = min N (int (length (loop_input cv video)))"
    using cnt m assms(2) by (auto simp: min_def max_def)
  then have a: "frames_read m \<le> N" by simp
  have "int (length (written s)) = frames_read m"
    using inv m by (simp add: loop_inv_def)
  with fs have c: "\<exists>ws. int (length ws) = frames_read m \<and>
            files (snd (process_video cv env video output_path conf k N w)) =
              transcode_step env (with_suffix env output_path ''.raw.mp4'') output_path
                ((files w)(with_suffix env output_path ''.raw.mp4'' \<mapsto> mp4v env ws))"
    by blast
  have d: "k = 5 \<and> N = 12 \<and> 12 \<le> length (loop_input cv video) \<longrightarrow>
            frames_read m = 12 \<and> map frame_index pf = [0, 5, 10]"
  proof
    assume h: "k = 5 \<and> N = 12 \<and> 12 \<le> length (loop_input cv video)"
    with b have n: "frames_read m = 12" by simp
    have "map frame_index pf = filter (\<lambda>i. i mod 5 = 0) [0..frame_idx s - 1]"
      using indices_of_inv [OF inv] m h by simp
    also have "\<dots> = filter (\<lambda>i. i mod 5 = 0) [0..11]" using n m by simp
    also have "\<dots> = [0, 5, 10]" by code_simp
    finally show "frames_read m = 12 \<and> map frame_index pf = [0, 5, 10]" using n by simp
  qed
  show ?thesis by (intro conjI a b c d)
qed

theorem max_frames_cutoff_witness:
  "fst (process_video log_lib env0 video13 ''out.mp4'' (1/4) 5 12 w0) =
     Inr (\<lparr>fps = 25, width = 640, height = 480, total_frames = 13, frames_read = 12,
            frame_step = 5, sampled_frames = 3\<rparr>,
          [],
          [\<lparr>frame_index = 0, timestamp_s = 0, detections = []\<rparr>,
           \<lparr>frame_index = 5, timestamp_s = 1 / 5, detections = []\<rparr>,
           \<lparr>frame_index = 10, timestamp_s = 2 / 5, detections = []\<rparr>]) \<and>
   (0::int) < 12 \<and> 12 \<le> length (loop_input log_lib video13) \<and>
   frames_read \<lparr>fps = 25, width = 640, height = 480, total_frames = 13, frames_read = 12,
            frame_step = 5, sampled_frames = 3\<rparr> = 12 \<and>
   map frame_index
          [\<lparr>frame_index = 0, timestamp_s = 0, detections = []\<rparr>,
           \<lparr>frame_index = 5, timestamp_s = 1 / 5, detections = []\<rparr>,
           \<lparr>frame_index = 10, timestamp_s = 2 / 5, detections = []\<rparr>] = [0, 5, 10]"
proof -
  have n: "(0::int) < 12" by simp
  have len: "12 \<le> length (loop_input log_lib video13)"
    by (simp add: loop_input_video13)
  note t = max_frames_cutoff [OF run13 n]
  note sc = t [THEN conjunct2, THEN conjunct2, THEN conjunct2, rule_format, OF conjI [OF refl conjI [OF refl len]]]
  show ?thesis by (intro conjI run13 n len sc [THEN conjunct1] sc [THEN conjunct2])
qed

text \<open>
  Claim C5. For every caller-supplied stride \<open>k\<close> the pipeline behaves as with
  \<open>max 1 k\<close>, so for \<open>k \<le> 0\<close> exactly as with 1 (the value is never rejected); the
  reported \<open>frame_step\<close> is the clamped value, and an index is sampled if and only if it
  is the index of a decoded frame and a multiple of the clamped value.
\<close>

theorem frame_step_clamped:
  fixes cv :: "'img lib"
  shows
  "process_video cv env video output_path conf k max_frames w =
     process_video cv env video output_path conf (max 1 k) max_frames w \<and>
   (k \<le> 0 \<longrightarrow>
      process_video cv env video output_path conf k max_frames w =
        process_video cv env video output_path conf 1 max_frames w) \<and>
   (fst (process_video cv env video output_path conf k max_frames w) = Inr (m, fl, pf) \<longrightarrow>
      frame_step m = max 1 k \<and> 1 \<le> frame_step m \<and>
      (\<forall>i. i \<in> set (map frame_index pf) \<longleftrightarrow>
             0 \<le> i \<and> i < frames_read m \<and> i mod max 1 k = 0))"
proof -
  have a: "process_video cv env video output_path conf k max_frames w =
     process_video cv env video output_path conf (max 1 k) max_frames w"
    by (simp add: process_video_def)
  have b: "k \<le> 0 \<longrightarrow>
      process_video cv env video output_path conf k max_frames w =
        process_video cv env video output_path conf 1 max_frames w"
  proof
    assume "k \<le> 0"
    then have "max 1 k = 1" by simp
    with a show "process_video cv env video output_path conf k max_frames w =
        process_video cv env video output_path conf 1 max_frames w" by simp
  qed
  have c: "fst (process_video cv env video output_path conf k max_frames w) = Inr (m, fl, pf) \<longrightarrow>
      frame_step m = max 1 k \<and> 1 \<le> frame_step m \<and>
      (\<forall>i. i \<in> set (map frame_index pf) \<longleftrightarrow>
             0 \<le> i \<and> i < frames_read m \<and> i mod max 1 k = 0)"
  proof
    assume "fst (process_video cv env video output_path conf k max_frames w) = Inr (m, fl, pf)"
    then obtain s :: "'img loop" where inv: "loop_inv (max 1 k) s"
      and m: "frames_read m = frame_idx s" "frame_step m = max 1 k" "pf = per_frame s"
      by (rule process_video_inv)
    have "map frame_index pf = filter (\<lambda>i. i mod max 1 k = 0) [0..frames_read m - 1]"
      using indices_of_inv [OF inv] m by simp
    then have "\<forall>i. i \<in> set (map frame_index pf) \<longleftrightarrow>
             0 \<le> i \<and> i < frames_read m \<and> i mod max 1 k = 0"
      by auto
    then show "frame_step m = max 1 k \<and> 1 \<le> frame_step m \<and>
      (\<forall>i. i \<in> set (map frame_index pf) \<longleftrightarrow>
             0 \<le> i \<and> i < frames_read m \<and> i mod max 1 k = 0)"
      using m by simp
  qed
  show ?thesis by (intro conjI a b c)
qed

theorem frame_step_clamped_witness:
  "(0::int) \<le> 0 \<and>
   process_video log_lib env0 video3 ''out.mp4'' (1/4) 0 0 w0 =
     process_video log_lib env0 video3 ''out.mp4'' (1/4) 1 0 w0 \<and>
   fst (process_video log_lib env0 video3 ''out.mp4'' (1/4) 0 0 w0) =
     Inr (\<lparr>fps = 25, width = 640, height = 480, total_frames = 3, frames_read = 3,
            frame_step = 1, sampled_frames = 3\<rparr>,
          [person, car],
          [\<lparr>frame_index = 0, timestamp_s = 0, detections = [asdict person, asdict car]\<rparr>,
           \<lparr>frame_index = 1, timestamp_s = 1 / 25, detections = []\<rparr>,
           \<lparr>frame_index = 2, timestamp_s = 2 / 25, detections = []\<rparr>]) \<and>
   frame_step \<lparr>fps = 25, width = 640, height = 480, total_frames = 3, frames_read = 3,
            frame_step = 1, sampled_frames = 3\<rparr> = max 1 0 \<and>
   (2 \<in> set (map frame_index
          [\<lparr>frame_index = 0, timestamp_s = 0, detections = [asdict person, asdict car]\<rparr>,
           \<lparr>frame_index = 1, timestamp_s = 1 / 25, detections = []\<rparr>,
           \<lparr>frame_index = 2, timestamp_s = 2 / 25, detections = []\<rparr>]) \<longleftrightarrow>
    (0::int) \<le> 2 \<and> 2 < frames_read \<lparr>fps = 25, width = 640, height = 480, total_frames = 3,
       frames_read = 3, frame_step = 1, sampled_frames = 3\<rparr> \<and> 2 mod max 1 0 = (0::int))"
proof -
  note t = frame_step_clamped [of log_lib env0 video3 "''out.mp4''" "1/4" 0 0 w0]
  have z: "(0::int) \<le> 0" by simp
  note b = t [THEN conjunct2, THEN conjunct1, rule_format, OF z]
  note c = t [THEN conjunct2, THEN conjunct2, rule_format, OF run3_zero]
  note c3 = c [THEN conjunct2, THEN conjunct2, rule_format, of 2]
  show ?thesis by (intro conjI z b run3_zero c [THEN conjunct1] c3)
qed

text \<open>
  Claim C6 (the handles that were opened are released on every exit path) against the
  code: when the dimension probe cannot read a frame, and when the writer cannot be
  opened, the invocation raises with the handle of the source still open; only the path
  that reaches the end of the loop releases the two handles.
\<close>

theorem early_exits_leave_source_open:
  "process_video log_lib env0 video_unprobed ''out.mp4'' (1/4) 5 0 w0 =
     (Inl Failed_to_read_frames, w0\<lparr>cap_open := True\<rparr>) \<and>
   cap_open (snd (process_video log_lib env0 video_unprobed ''out.mp4'' (1/4) 5 0 w0)) \<and>
   process_video log_lib (env0\<lparr>writer_is_opened := (\<lambda>p f wh. False)\<rparr>) video3
       ''out.mp4'' (1/4) 5 0 w0 =
     (Inl Failed_to_open_video_writer, w0\<lparr>cap_open := True\<rparr>) \<and>
   cap_open (snd (process_video log_lib (env0\<lparr>writer_is_opened := (\<lambda>p f wh. False)\<rparr>) video3
       ''out.mp4'' (1/4) 5 0 w0)) \<and>
   \<not> cap_open (snd (process_video log_lib env0 video3 ''out.mp4'' (1/4) 5 0 w0)) \<and>
   \<not> writer_open (snd (process_video log_lib env0 video3 ''out.mp4'' (1/4) 5 0 w0))"
  by (simp add: process_video_def probe_def Let_def video_unprobed_def video3_def env0_def
      w0_def process_frame_def py_int_def)

text \<open>
  Claim C2 (when the transcode step fails and no final file pre-existed, the pipeline
  still leaves the intermediate file, non-empty, at the final path) against the code.
  With an absent transcoder the fallback works: the final path holds the intermediate
  file as the sink wrote it and the intermediate path is gone. With a transcoder that
  fails after creating an empty output file, no final file pre-existing, the rename is
  skipped because the final path now exists, the cleanup deletes the intermediate file,
  and the invocation completes with an empty file at the final path.
\<close>

theorem failed_transcoder_leaves_empty_output:
  "files w0 ''out.mp4'' = None \<and>
   ffmpeg env0 (mp4v env0 []) = Transcode_failed None \<and>
   files (snd (process_video log_lib env0 video3 ''out.mp4'' (1/4) 2 0 w0)) ''out.mp4'' =
     Some (mp4v env0 [annotate log_lib [''f0''] [person, car], [''f1''],
                      annotate log_lib [''f2''] []]) \<and>
   files (snd (process_video log_lib env0 video3 ''out.mp4'' (1/4) 2 0 w0))
     ''out.raw.mp4'' = None \<and>
   ffmpeg env_partial (mp4v env_partial []) = Transcode_failed (Some []) \<and>
   fst (process_video log_lib env_partial video3 ''out.mp4'' (1/4) 2 0 w0) =
     Inr (\<lparr>fps = 25, width = 640, height = 480, total_frames = 3, frames_read = 3,
            frame_step = 2, sampled_frames = 2\<rparr>,
          [person, car],
          [\<lparr>frame_index = 0, timestamp_s = 0, detections = [asdict person, asdict car]\<rparr>,
           \<lparr>frame_index = 2, timestamp_s = 2 / 25, detections = []\<rparr>]) \<and>
   files (snd (process_video log_lib env_partial video3 ''out.mp4'' (1/4) 2 0 w0)) ''out.mp4'' =
     Some [] \<and>
   files (snd (process_video log_lib env_partial video3 ''out.mp4'' (1/4) 2 0 w0))
     ''out.raw.mp4'' = None"
  by (simp add: process_video_def probe_def Let_def video3_def env_partial_def env0_def w0_def
      process_frame_def py_int_def transcode_step_def)

end
